theory Spec2Isabelle
  imports Main "HOL-Library.Sublist"
begin

section \<open>The voice chat component: strings and messages\<close>

text \<open>
  The development embeds \<^verbatim>\<open>src/components/ChatInterface.tsx\<close>, a React function
  component. A JavaScript string is a list of code units; the model keeps the code units
  below 256 (an Isabelle \<open>char\<close>), read as Latin-1. The white space that
  \<^verbatim>\<open>String.prototype.trim\<close> removes is, in that range, TAB, LF, VT, FF, CR, SPACE and
  NBSP.
\<close>

definition isWhiteSpace :: "char \<Rightarrow> bool" where
  "isWhiteSpace c = (of_char c \<in> {9, 10, 11, 12, 13, 32, 160 :: nat})"

definition trim :: "string \<Rightarrow> string" where
  "trim s = rev (dropWhile isWhiteSpace (rev (dropWhile isWhiteSpace s)))"

text \<open>\<^verbatim>\<open>s.includes(t)\<close>: \<open>t\<close> occurs in \<open>s\<close> as a contiguous block.\<close>

fun includes_str :: "string \<Rightarrow> string \<Rightarrow> bool" where
  "includes_str [] t = (t = [])"
| "includes_str (c # s) t = (prefix t (c # s) \<or> includes_str s t)"

text \<open>\<^verbatim>\<open>Date.now().toString()\<close>: the decimal digits of the clock reading.\<close>

definition digit :: "nat \<Rightarrow> char" where
  "digit d = char_of (48 + d)"

fun toString :: "nat \<Rightarrow> string" where
  "toString n = (if n < 10 then [digit n] else toString (n div 10) @ [digit (n mod 10)])"

datatype sender = User | Ai

record message =
  msg_id :: string
  msg_text :: string
  msg_sender :: sender
  timestamp :: nat

text \<open>The message objects built at lines 65, 99 and 115; \<open>now\<close> is the clock reading.\<close>

definition userMessage :: "nat \<Rightarrow> string \<Rightarrow> message" where
  "userMessage now txt =
     \<lparr>msg_id = toString now, msg_text = txt, msg_sender = User, timestamp = now\<rparr>"

definition aiMessage :: "nat \<Rightarrow> string \<Rightarrow> message" where
  "aiMessage now txt =
     \<lparr>msg_id = toString now, msg_text = txt, msg_sender = Ai, timestamp = now\<rparr>"

definition apology :: string where
  "apology = ''Sorry, there was an error processing your request. Please try again.''"

definition errorMessage :: "nat \<Rightarrow> message" where
  "errorMessage now = aiMessage now apology"

section \<open>The reply of the backend\<close>

text \<open>
  What \<^verbatim>\<open>fetch\<close> can hand back to lines 77 to 97: the promise rejects, or it resolves
  to a response with its \<^verbatim>\<open>ok\<close> flag, status, content-type header and body. The body
  is given by what \<^verbatim>\<open>response.json()\<close> and \<^verbatim>\<open>response.text()\<close> would resolve to
  (\<open>None\<close>: the call rejects, or the parsed value has no properties to read). A parsed
  object is read only at its fields \<^verbatim>\<open>response\<close> and \<^verbatim>\<open>output\<close>, strings when present.
\<close>

record json_data =
  data_response :: "string option"
  data_output :: "string option"

record http_response =
  ok :: bool
  status :: nat
  contentType :: "string option"
  json_body :: "json_data option"
  text_body :: "string option"

datatype fetch_result = Rejected | Resolved http_response

datatype dispatch_error = NetworkError | HttpStatus nat | BodyError

text \<open>\<^verbatim>\<open>a || b\<close> on strings that may be missing: the first one present and not empty.\<close>

definition truthy :: "string option \<Rightarrow> bool" where
  "truthy v = (case v of None \<Rightarrow> False | Some s \<Rightarrow> s \<noteq> [])"

definition aiTextOfData :: "json_data \<Rightarrow> string" where
  "aiTextOfData d =
     (if truthy (data_response d) then the (data_response d)
      else if truthy (data_output d) then the (data_output d)
      else ''I received your message but got no response.'')"

text \<open>Lines 86 to 97: the text of the reply, or the error the \<^verbatim>\<open>try\<close> block throws.\<close>

definition replyText :: "fetch_result \<Rightarrow> dispatch_error + string" where
  "replyText fr =
     (case fr of
        Rejected \<Rightarrow> Inl NetworkError
      | Resolved r \<Rightarrow>
          if \<not> ok r then Inl (HttpStatus (status r))
          else if truthy (contentType r) \<and> includes_str (the (contentType r)) ''application/json''
          then (case json_body r of None \<Rightarrow> Inl BodyError | Some d \<Rightarrow> Inr (aiTextOfData d))
          else (case text_body r of None \<Rightarrow> Inl BodyError | Some s \<Rightarrow> Inr s))"

section \<open>The component's state\<close>

text \<open>
  React calls the component function once per render. Each call binds \<^verbatim>\<open>isAutoChat\<close>,
  \<^verbatim>\<open>isLoading\<close>, ... to the values of that render (\<^verbatim>\<open>const [isAutoChat, setIsAutoChat]
  = useState(false)\<close>), and every function created in the call closes over these
  constants: a setter changes the state cell, never a binding an existing closure holds.
  \<^verbatim>\<open>useCallback(f, deps)\<close> keeps the function of the last render in which \<open>deps\<close>
  changed. So
  \<^item> \<^verbatim>\<open>startListening\<close> (deps \<^verbatim>\<open>[isAutoChat]\<close>), the handlers it installs and the timers
    they arm read the \<^verbatim>\<open>isAutoChat\<close> and \<^verbatim>\<open>isLoading\<close> of the render in which
    \<^verbatim>\<open>isAutoChat\<close> last changed before the function was obtained: a \<open>closure\<close>;
    a call of \<^verbatim>\<open>startListening()\<close> inside it is a call of the same function;
  \<^item> \<^verbatim>\<open>processAIResponse\<close> (deps \<^verbatim>\<open>[]\<close>) is the function of the first render;
  \<^item> \<^verbatim>\<open>toggleAutoChat\<close> (whose deps hold every state it reads) and \<^verbatim>\<open>handleSubmit\<close> (not
    memoised) are the functions of the current render, and read the current state.

  The model covers the component while it is mounted: the events are the user's actions,
  the events of the recognition objects, timers firing, requests settling and utterances
  ending, one at a time, each followed by the render it causes. Scrolling and the
  cleanup at unmount are left out.
\<close>

record closure =
  capturedIsAutoChat :: bool
  capturedIsLoading :: bool

text \<open>
  One call of \<^verbatim>\<open>startListening\<close> that reaches line 152 creates a recognition object and
  the two variables of lines 158 and 159, which its handlers share. A \<open>capture\<close> holds
  them, with the closure the handlers were created in; it is named by its index in
  \<open>captures\<close>.
\<close>

record capture =
  finalTranscript :: string
  isProcessing :: bool
  captured :: closure

text \<open>The callbacks handed to \<^verbatim>\<open>setTimeout\<close>, each with what it closes over.\<close>

datatype callback =
    SilenceTimer nat \<comment> \<open>line 182, of the capture with this index\<close>
  | RestartTimer closure \<comment> \<open>line 206, armed by \<^verbatim>\<open>onend\<close>\<close>
  | RecoveryTimer closure \<comment> \<open>line 244, armed by \<^verbatim>\<open>onerror\<close>\<close>
  | RetryTimer closure \<comment> \<open>line 260, armed when \<^verbatim>\<open>recognition.start()\<close> throws\<close>
  | EffectTimer closure \<comment> \<open>line 314, armed by the effect on \<^verbatim>\<open>isAutoChat\<close>\<close>

text \<open>
  A call of \<^verbatim>\<open>processAIResponse\<close> that is suspended at an \<^verbatim>\<open>await\<close>, with the caller
  that awaits it: the debounce callback of a capture, or \<^verbatim>\<open>handleSubmit\<close>.
\<close>

datatype origin = Voice nat | Typed

datatype task =
    AwaitFetch origin string \<comment> \<open>line 77: the request with this text is out\<close>
  | AwaitSpeak origin \<comment> \<open>line 107: the utterance is being spoken\<close>

record chat =
  messages :: "message list"
  input :: string
  isLoading :: bool
  isAutoChat :: bool
  isListening :: bool
  recognitionRef :: "nat option"
  synthesisRef :: "string option"
  silenceTimerRef :: "nat option"
  startListeningMemo :: closure \<comment> \<open>the closure of the memoised \<^verbatim>\<open>startListening\<close>\<close>
  effectCleanup :: "nat option" \<comment> \<open>the timer the pending effect cleanup clears\<close>
  captures :: "capture list"
  timers :: "(nat \<times> callback) option list" \<comment> \<open>delay and callback; \<open>None\<close>: fired or cleared\<close>
  tasks :: "task option list" \<comment> \<open>\<open>None\<close>: settled\<close>
  utterances :: "string list" \<comment> \<open>the texts given to \<^verbatim>\<open>speechSynthesis.speak\<close>\<close>
  alerts :: "string list"

text \<open>
  What the browser decides during one event: whether the capability objects exist,
  whether the first and the second \<^verbatim>\<open>recognition.start()\<close> of lines 254 and 267 throw
  (the Web Speech API makes the second throw when the first succeeded), and the clock.
\<close>

record platform =
  hasSpeechRecognition :: bool
  hasSpeechSynthesis :: bool
  firstStartThrows :: bool
  secondStartThrows :: bool
  now :: nat

definition init :: chat where
  "init =
     \<lparr>messages = [], input = [], isLoading = False, isAutoChat = False, isListening = False,
      recognitionRef = None, synthesisRef = None, silenceTimerRef = None,
      startListeningMemo = \<lparr>capturedIsAutoChat = False, capturedIsLoading = False\<rparr>,
      effectCleanup = None, captures = [], timers = [], tasks = [], utterances = [],
      alerts = []\<rparr>"

text \<open>\<^verbatim>\<open>processAIResponse\<close> is created once, in the first render.\<close>

definition firstRender :: closure where
  "firstRender = \<lparr>capturedIsAutoChat = False, capturedIsLoading = False\<rparr>"

subsection \<open>Timers\<close>

definition setTimeout :: "callback \<Rightarrow> nat \<Rightarrow> chat \<Rightarrow> chat" where
  "setTimeout cb delay st = st\<lparr>timers := timers st @ [Some (delay, cb)]\<rparr>"

definition clearTimeout :: "nat \<Rightarrow> chat \<Rightarrow> chat" where
  "clearTimeout t st = st\<lparr>timers := (timers st)[t := None]\<rparr>"

definition setCapture :: "nat \<Rightarrow> (capture \<Rightarrow> capture) \<Rightarrow> chat \<Rightarrow> chat" where
  "setCapture n f st =
     (if n < length (captures st) then st\<lparr>captures := (captures st)[n := f (captures st ! n)]\<rparr>
      else st)"

section \<open>Starting and stopping the capture\<close>

definition unsupported :: string where
  "unsupported =
     ''Your browser does not support speech recognition. Please use Chrome, Edge, or Safari.''"

text \<open>
  \<^verbatim>\<open>startListening\<close>, lines 127 to 273, run in the closure \<open>c\<close>. Stopping a recognition
  object changes nothing the component reads (its \<^verbatim>\<open>end\<close> event comes later, as an event
  of its own), and what \<^verbatim>\<open>stop()\<close> throws is caught and logged.
\<close>

definition startListening :: "closure \<Rightarrow> platform \<Rightarrow> chat \<Rightarrow> chat" where
  "startListening c pf st =
     (if \<not> capturedIsAutoChat c then st
      else
        let st1 = st\<lparr>recognitionRef := None\<rparr> in
        if \<not> hasSpeechRecognition pf then st1\<lparr>alerts := alerts st1 @ [unsupported]\<rparr>
        else
          let n = length (captures st1);
              st2 = st1\<lparr>isListening := True,
                        captures := captures st1 @
                          [\<lparr>finalTranscript = [], isProcessing = False, captured = c\<rparr>],
                        recognitionRef := Some n\<rparr>;
              st3 = (if firstStartThrows pf
                     then (if capturedIsAutoChat c then setTimeout (RetryTimer c) 1000 st2 else st2)
                     else st2\<lparr>isListening := True\<rparr>)
          in if secondStartThrows pf then st3\<lparr>isListening := False\<rparr>
             else st3\<lparr>isListening := True\<rparr>)"

text \<open>\<^verbatim>\<open>stopListening\<close>, lines 275 to 295.\<close>

definition stopListening :: "chat \<Rightarrow> chat" where
  "stopListening st =
     (let st1 = st\<lparr>recognitionRef := None\<rparr>;
          st2 = (case silenceTimerRef st1 of
                   Some t \<Rightarrow> (clearTimeout t st1)\<lparr>silenceTimerRef := None\<rparr>
                 | None \<Rightarrow> st1)
      in st2\<lparr>isListening := False\<rparr>)"

section \<open>One exchange with the backend\<close>

text \<open>
  \<^verbatim>\<open>processAIResponse\<close>, lines 62 to 125, is an \<^verbatim>\<open>async\<close> function: it runs up to the
  \<^verbatim>\<open>await fetch\<close> of line 77, later from the settled request up to the \<^verbatim>\<open>await speak\<close>
  of line 107, and later from the end of the utterance to its own end. Each part is one
  function here. The first part returns whether the call is suspended (\<open>True\<close>) or
  has returned at line 63 (\<open>False\<close>).
\<close>

definition processAIResponse :: "origin \<Rightarrow> platform \<Rightarrow> string \<Rightarrow> chat \<Rightarrow> chat \<times> bool" where
  "processAIResponse og pf txt st =
     (if trim txt = [] then (st, False)
      else (st\<lparr>messages := messages st @ [userMessage (now pf) txt],
               input := [],
               isLoading := True,
               tasks := tasks st @ [Some (AwaitFetch og txt)]\<rparr>, True))"

text \<open>
  What the caller does once the promise of \<^verbatim>\<open>processAIResponse\<close> has resolved: line 186
  for the debounce callback, nothing for \<^verbatim>\<open>handleSubmit\<close>.
\<close>

definition afterAwait :: "origin \<Rightarrow> chat \<Rightarrow> chat" where
  "afterAwait og st =
     (case og of
        Voice n \<Rightarrow> setCapture n (\<lambda>s. s\<lparr>isProcessing := False\<rparr>) st
      | Typed \<Rightarrow> st)"

definition awaitProcessAIResponse :: "origin \<Rightarrow> platform \<Rightarrow> string \<Rightarrow> chat \<Rightarrow> chat" where
  "awaitProcessAIResponse og pf txt st =
     (case processAIResponse og pf txt st of
        (st', suspended) \<Rightarrow> if suspended then st' else afterAwait og st')"

text \<open>The \<^verbatim>\<open>finally\<close> block of line 122, the end of task \<open>k\<close>, and the caller's next step.\<close>

definition finish :: "origin \<Rightarrow> nat \<Rightarrow> chat \<Rightarrow> chat" where
  "finish og k st = afterAwait og (st\<lparr>isLoading := False, tasks := (tasks st)[k := None]\<rparr>)"

text \<open>Lines 109 to 112, in the closure of the first render.\<close>

definition afterSpeak :: "origin \<Rightarrow> nat \<Rightarrow> platform \<Rightarrow> chat \<Rightarrow> chat" where
  "afterSpeak og k pf st =
     finish og k
       (if capturedIsAutoChat firstRender then startListening firstRender pf st else st)"

text \<open>
  \<^verbatim>\<open>speak\<close>, lines 33 to 60, awaited at line 107: with speech synthesis the utterance is
  handed over and the task waits for its end; without, the promise is already resolved.
\<close>

definition speak :: "string \<Rightarrow> origin \<Rightarrow> nat \<Rightarrow> platform \<Rightarrow> chat \<Rightarrow> chat" where
  "speak txt og k pf st =
     (if hasSpeechSynthesis pf
      then st\<lparr>synthesisRef := Some txt,
              utterances := utterances st @ [txt],
              tasks := (tasks st)[k := Some (AwaitSpeak og)]\<rparr>
      else afterSpeak og k pf st)"

text \<open>The request of task \<open>k\<close> settles with \<open>fr\<close>: lines 86 to 107, or the \<^verbatim>\<open>catch\<close> block.\<close>

definition fetchSettled :: "nat \<Rightarrow> fetch_result \<Rightarrow> platform \<Rightarrow> chat \<Rightarrow> chat" where
  "fetchSettled k fr pf st =
     (if k < length (tasks st) then
        (case tasks st ! k of
           Some (AwaitFetch og txt) \<Rightarrow>
             (case replyText fr of
                Inr aiText \<Rightarrow>
                  speak aiText og k pf (st\<lparr>messages := messages st @ [aiMessage (now pf) aiText]\<rparr>)
              | Inl e \<Rightarrow>
                  finish og k (st\<lparr>messages := messages st @ [errorMessage (now pf)]\<rparr>))
         | _ \<Rightarrow> st)
      else st)"

text \<open>The utterance of task \<open>k\<close> ends (line 52).\<close>

definition speechEnded :: "nat \<Rightarrow> platform \<Rightarrow> chat \<Rightarrow> chat" where
  "speechEnded k pf st =
     (if k < length (tasks st) then
        (case tasks st ! k of
           Some (AwaitSpeak og) \<Rightarrow> afterSpeak og k pf st
         | _ \<Rightarrow> st)
      else st)"

section \<open>The handlers of a capture\<close>

text \<open>
  A result of the recognition: whether it is final, and the transcript of its first
  alternative. An event carries the results and the index of the first changed one.
\<close>

record speechResult =
  isFinal :: bool
  transcript :: string

record speechEvent =
  resultIndex :: nat
  results :: "speechResult list"

text \<open>
  The loop of lines 169 to 176 over the results from \<open>resultIndex\<close> on; the pair is
  \<^verbatim>\<open>finalTranscript\<close> and \<^verbatim>\<open>interimTranscript\<close>.
\<close>

fun scanResults :: "speechResult list \<Rightarrow> string \<times> string \<Rightarrow> string \<times> string" where
  "scanResults [] acc = acc"
| "scanResults (r # rs) (fin, interim) =
     (if isFinal r then scanResults rs (transcript r, interim)
      else scanResults rs (fin, transcript r))"

text \<open>\<^verbatim>\<open>recognition.onresult\<close> of capture \<open>n\<close>, lines 161 to 193.\<close>

definition onresult :: "nat \<Rightarrow> speechEvent \<Rightarrow> chat \<Rightarrow> chat" where
  "onresult n ev st =
     (let st1 = (case silenceTimerRef st of Some t \<Rightarrow> clearTimeout t st | None \<Rightarrow> st);
          (fin, interim) = scanResults (drop (resultIndex ev) (results ev))
                             (finalTranscript (captures st ! n), []);
          st2 = (setCapture n (\<lambda>s. s\<lparr>finalTranscript := fin\<rparr>) st1)
                  \<lparr>input := (if fin \<noteq> [] then fin else interim)\<rparr>
      in if trim fin \<noteq> []
         then (setTimeout (SilenceTimer n) 1000 st2)\<lparr>silenceTimerRef := Some (length (timers st2))\<rparr>
         else st2)"

text \<open>The callback of the debounce timer, lines 182 to 191.\<close>

definition silenceCallback :: "nat \<Rightarrow> platform \<Rightarrow> chat \<Rightarrow> chat" where
  "silenceCallback n pf st =
     (let s = captures st ! n in
      if trim (finalTranscript s) \<noteq> [] \<and> \<not> isProcessing s
      then awaitProcessAIResponse (Voice n) pf (finalTranscript s)
             (setCapture n (\<lambda>s. s\<lparr>isProcessing := True\<rparr>) st)
      else st)"

text \<open>
  \<^verbatim>\<open>recognition.onend\<close> of capture \<open>n\<close>, lines 195 to 225. The function the handler
  returns is dropped by the browser; the \<^verbatim>\<open>recognitionRef.current.stop()\<close> of the timer
  changes nothing the component reads.
\<close>

definition onend :: "nat \<Rightarrow> chat \<Rightarrow> chat" where
  "onend n st =
     (let c = captured (captures st ! n) in
      if \<not> capturedIsAutoChat c then st\<lparr>isListening := False\<rparr>
      else if capturedIsAutoChat c
      then setTimeout (RestartTimer c) (if capturedIsLoading c then 1000 else 300) st
      else st\<lparr>isListening := False\<rparr>)"

text \<open>\<^verbatim>\<open>recognition.onerror\<close> of capture \<open>n\<close>, lines 227 to 250.\<close>

definition onerror :: "nat \<Rightarrow> string \<Rightarrow> chat \<Rightarrow> chat" where
  "onerror n code st =
     (let c = captured (captures st ! n);
          st1 = st\<lparr>isListening := False\<rparr>
      in if capturedIsAutoChat c \<and> code \<noteq> ''no-speech'' \<and> code \<noteq> ''not-allowed''
         then setTimeout (RecoveryTimer c) 1000 st1
         else st1)"

section \<open>Timers firing\<close>

fun runCallback :: "callback \<Rightarrow> platform \<Rightarrow> chat \<Rightarrow> chat" where
  "runCallback (SilenceTimer n) pf st = silenceCallback n pf st"
| "runCallback (RestartTimer c) pf st =
     (if capturedIsAutoChat c then startListening c pf st else st)"
| "runCallback (RecoveryTimer c) pf st =
     (if capturedIsAutoChat c then startListening c pf st else st)"
| "runCallback (RetryTimer c) pf st = startListening c pf st"
| "runCallback (EffectTimer c) pf st =
     (if capturedIsAutoChat c then startListening c pf st else st)"

text \<open>Timer \<open>t\<close> fires, if it is still pending; a timer fires once.\<close>

definition fireTimer :: "nat \<Rightarrow> platform \<Rightarrow> chat \<Rightarrow> chat" where
  "fireTimer t pf st =
     (if t < length (timers st) then
        (case timers st ! t of
           Some (delay, cb) \<Rightarrow> runCallback cb pf (st\<lparr>timers := (timers st)[t := None]\<rparr>)
         | None \<Rightarrow> st)
      else st)"

section \<open>The user's actions and the render\<close>

text \<open>
  \<^verbatim>\<open>toggleAutoChat\<close>, lines 297 to 308, the function of the current render: it reads the
  state, and its \<^verbatim>\<open>startListening\<close> is the memoised one.
\<close>

definition toggleAutoChat :: "platform \<Rightarrow> chat \<Rightarrow> chat" where
  "toggleAutoChat pf st =
     (let newAutoChatState = \<not> isAutoChat st;
          st1 = st\<lparr>isAutoChat := newAutoChatState\<rparr>
      in if newAutoChatState
         then (if \<not> isListening st then startListening (startListeningMemo st) pf st1 else st1)
         else stopListening st1)"

text \<open>\<^verbatim>\<open>handleSubmit\<close>, lines 351 to 357.\<close>

definition handleSubmit :: "platform \<Rightarrow> chat \<Rightarrow> chat" where
  "handleSubmit pf st =
     (let message = trim (input st) in
      if message = [] \<or> isLoading st then st
      else awaitProcessAIResponse Typed pf message st)"

text \<open>The microphone button, line 407.\<close>

definition micClick :: "platform \<Rightarrow> chat \<Rightarrow> chat" where
  "micClick pf st =
     (if isListening st then stopListening st
      else startListening (startListeningMemo st) pf st)"

text \<open>The text field, lines 396 to 403: disabled while loading or in auto-chat mode.\<close>

definition inputChange :: "string \<Rightarrow> chat \<Rightarrow> chat" where
  "inputChange s st = (if isLoading st \<or> isAutoChat st then st else st\<lparr>input := s\<rparr>)"

text \<open>
  The effect of lines 311 to 330 and its cleanup. The effect runs after a render in
  which \<^verbatim>\<open>isAutoChat\<close> (and with it \<^verbatim>\<open>startListening\<close>) has changed, after the cleanup
  the previous run returned.
\<close>

definition autoChatEffect :: "chat \<Rightarrow> chat" where
  "autoChatEffect st =
     (if isAutoChat st
      then (setTimeout (EffectTimer (startListeningMemo st)) 300 st)
             \<lparr>effectCleanup := Some (length (timers st))\<rparr>
      else (stopListening st)\<lparr>effectCleanup := None\<rparr>)"

definition runCleanup :: "chat \<Rightarrow> chat" where
  "runCleanup st =
     (case effectCleanup st of
        Some t \<Rightarrow> stopListening (clearTimeout t st)
      | None \<Rightarrow> st)"

text \<open>
  The render after an event: when \<^verbatim>\<open>isAutoChat\<close> differs from the one the memoised
  \<^verbatim>\<open>startListening\<close> was created with, \<^verbatim>\<open>useCallback\<close> takes the function of this render,
  and the effect runs.
\<close>

definition render :: "chat \<Rightarrow> chat" where
  "render st =
     (if capturedIsAutoChat (startListeningMemo st) = isAutoChat st then st
      else autoChatEffect (runCleanup
             (st\<lparr>startListeningMemo :=
                   \<lparr>capturedIsAutoChat = isAutoChat st, capturedIsLoading = isLoading st\<rparr>\<rparr>)))"

section \<open>Events\<close>

datatype event =
    ToggleAutoChat
  | MicClick
  | InputChange string
  | Submit
  | Result nat speechEvent \<comment> \<open>the recognition of capture \<open>n\<close> reports results\<close>
  | SessionEnd nat \<comment> \<open>the recognition of capture \<open>n\<close> ends\<close>
  | SessionError nat string \<comment> \<open>the recognition of capture \<open>n\<close> reports an error\<close>
  | Timeout nat \<comment> \<open>timer \<open>t\<close> fires\<close>
  | FetchSettled nat fetch_result \<comment> \<open>the request of task \<open>k\<close> settles\<close>
  | SpeechEnded nat \<comment> \<open>the utterance of task \<open>k\<close> ends\<close>

text \<open>A recognition has handlers once \<^verbatim>\<open>startListening\<close> has created it.\<close>

fun handle :: "platform \<Rightarrow> event \<Rightarrow> chat \<Rightarrow> chat" where
  "handle pf ToggleAutoChat st = toggleAutoChat pf st"
| "handle pf MicClick st = micClick pf st"
| "handle pf (InputChange s) st = inputChange s st"
| "handle pf Submit st = handleSubmit pf st"
| "handle pf (Result n ev) st = (if n < length (captures st) then onresult n ev st else st)"
| "handle pf (SessionEnd n) st = (if n < length (captures st) then onend n st else st)"
| "handle pf (SessionError n code) st =
     (if n < length (captures st) then onerror n code st else st)"
| "handle pf (Timeout t) st = fireTimer t pf st"
| "handle pf (FetchSettled k fr) st = fetchSettled k fr pf st"
| "handle pf (SpeechEnded k) st = speechEnded k pf st"

definition step :: "platform \<Rightarrow> event \<Rightarrow> chat \<Rightarrow> chat" where
  "step pf ev st = render (handle pf ev st)"

fun run :: "(platform \<times> event) list \<Rightarrow> chat \<Rightarrow> chat" where
  "run [] st = st"
| "run ((pf, ev) # evs) st = run evs (step pf ev st)"

text \<open>The states the component can be in: those some sequence of events leads to.\<close>

inductive reachable :: "chat \<Rightarrow> bool" where
  reachable_init: "reachable init"
| reachable_step: "reachable st \<Longrightarrow> reachable (step pf ev st)"

section \<open>Scenarios and invariants\<close>

text \<open>
  A browser with both capabilities that follows the Web Speech API: the first
  \<^verbatim>\<open>recognition.start()\<close> succeeds and the second one throws. \<open>t\<close> is its clock.
\<close>

definition chromium :: "nat \<Rightarrow> platform" where
  "chromium t =
     \<lparr>hasSpeechRecognition = True, hasSpeechSynthesis = True, firstStartThrows = False,
      secondStartThrows = True, now = t\<rparr>"

text \<open>
  The memoised \<^verbatim>\<open>startListening\<close> is the one of the current value of \<^verbatim>\<open>isAutoChat\<close>:
  true after every render.
\<close>

definition in_sync :: "chat \<Rightarrow> bool" where
  "in_sync st = (capturedIsAutoChat (startListeningMemo st) = isAutoChat st)"

text \<open>The capture whose debounce callback a timer entry holds, if it is pending.\<close>

fun silenceOf :: "(nat \<times> callback) option \<Rightarrow> nat option" where
  "silenceOf (Some (d, SilenceTimer n)) = Some n"
| "silenceOf _ = None"

text \<open>
  Every pending debounce timer is the one \<^verbatim>\<open>silenceTimerRef\<close> holds, and belongs to a
  capture whose \<^verbatim>\<open>finalTranscript\<close> is not blank.
\<close>

definition debounce_ok :: "chat \<Rightarrow> bool" where
  "debounce_ok st =
     (\<forall>t\<in>set [0..<length (timers st)].
        case silenceOf (timers st ! t) of
          None \<Rightarrow> True
        | Some n \<Rightarrow> silenceTimerRef st = Some t \<and> n < length (captures st) \<and>
                   trim (finalTranscript (captures st ! n)) \<noteq> [])"

text \<open>The caller that awaits a task, and the number of unsettled tasks capture \<open>n\<close> awaits.\<close>

fun awaitedBy :: "task option \<Rightarrow> origin option" where
  "awaitedBy None = None"
| "awaitedBy (Some (AwaitFetch og txt)) = Some og"
| "awaitedBy (Some (AwaitSpeak og)) = Some og"

definition inFlight :: "nat \<Rightarrow> chat \<Rightarrow> nat" where
  "inFlight n st = length (filter (\<lambda>tk. awaitedBy tk = Some (Voice n)) (tasks st))"

text \<open>
  A capture awaits exactly one task while its \<^verbatim>\<open>isProcessing\<close> is set and none
  otherwise, and every task a debounce callback awaits belongs to an existing capture.
\<close>

definition processing_ok :: "chat \<Rightarrow> bool" where
  "processing_ok st =
     ((\<forall>n\<in>set [0..<length (captures st)].
         inFlight n st = (if isProcessing (captures st ! n) then 1 else 0)) \<and>
      (\<forall>k\<in>set [0..<length (tasks st)].
         case awaitedBy (tasks st ! k) of
           Some (Voice n) \<Rightarrow> n < length (captures st)
         | _ \<Rightarrow> True))"

text \<open>The same, as one count for every \<open>n\<close>.\<close>

definition flight_ok :: "task option list \<Rightarrow> capture list \<Rightarrow> bool" where
  "flight_ok ts cs =
     (\<forall>n. length (filter (\<lambda>tk. awaitedBy tk = Some (Voice n)) ts) =
            (if n < length cs \<and> isProcessing (cs ! n) then 1 else 0))"

text \<open>An event with one final result, one with a single interim result, a plain-text reply.\<close>

definition finalEvent :: "string \<Rightarrow> speechEvent" where
  "finalEvent s = \<lparr>resultIndex = 0, results = [\<lparr>isFinal = True, transcript = s\<rparr>]\<rparr>"

definition interimEvent :: "string \<Rightarrow> speechEvent" where
  "interimEvent s = \<lparr>resultIndex = 0, results = [\<lparr>isFinal = False, transcript = s\<rparr>]\<rparr>"

definition textReply :: "string \<Rightarrow> fetch_result" where
  "textReply s =
     Resolved \<lparr>ok = True, status = 200, contentType = Some ''text/plain'', json_body = None,
               text_body = Some s\<rparr>"

text \<open>
  The user switches auto-chat on and the timer of the effect fires: capture 0 is open.
\<close>

definition listening :: chat where
  "listening = run [(chromium 1, ToggleAutoChat), (chromium 2, Timeout 0)] init"

text \<open>
  From there: the session of capture 0 ends, which arms the restart timer (timer 1), and
  the user switches auto-chat off.
\<close>

definition switchedOff :: chat where
  "switchedOff = run [(chromium 3, SessionEnd 0), (chromium 4, ToggleAutoChat)] listening"

text \<open>
  Or, from \<open>listening\<close>: capture 0 reports the error \<^verbatim>\<open>no-speech\<close> and then, as a
  recognition does after an error, its end.
\<close>

definition afterFatalError :: chat where
  "afterFatalError =
     run [(chromium 3, SessionError 0 ''no-speech''), (chromium 4, SessionEnd 0)] listening"

text \<open>
  Or, from \<open>listening\<close>: capture 0 reports the final transcript ``hello'', which arms the
  debounce timer (timer 1); the timer fires and the request is out (task 0); the reply
  ``hi'' arrives and is spoken to its end.
\<close>

definition heardHello :: chat where
  "heardHello = run [(chromium 3, Result 0 (finalEvent ''hello''))] listening"

definition dispatched :: chat where
  "dispatched = run [(chromium 4, Timeout 1)] heardHello"

definition answered :: chat where
  "answered =
     run [(chromium 5, FetchSettled 0 (textReply ''hi'')), (chromium 6, SpeechEnded 0)] dispatched"

text \<open>
  Or, from \<open>dispatched\<close>, with the request still out: the session of capture 0 ends, the
  restart timer (timer 2) fires and opens capture 1, which reports the final transcript
  ``hi'' and arms its debounce timer (timer 3).
\<close>

definition secondCapture :: chat where
  "secondCapture =
     run [(chromium 5, SessionEnd 0), (chromium 6, Timeout 2),
          (chromium 7, Result 1 (finalEvent ''hi''))] dispatched"

text \<open>
  The timers once lines 163 to 165 have cleared the one \<^verbatim>\<open>silenceTimerRef\<close> holds.
\<close>

definition cancelled :: "chat \<Rightarrow> (nat \<times> callback) option list" where
  "cancelled st =
     (case silenceTimerRef st of Some t \<Rightarrow> (timers st)[t := None] | None \<Rightarrow> timers st)"

text \<open>
  The text \<^verbatim>\<open>interimTranscript\<close> holds after the loop when no result is final: the
  transcript of the last result from \<open>resultIndex\<close> on, or the empty string.
\<close>

definition interimText :: "speechEvent \<Rightarrow> string" where
  "interimText ev =
     (case drop (resultIndex ev) (results ev) of
        [] \<Rightarrow> []
      | r # rs \<Rightarrow> transcript (last (r # rs)))"

text \<open>
  The closure a timer callback reads \<^verbatim>\<open>isAutoChat\<close> from; the debounce callback does not
  read it.
\<close>

fun closureOf :: "(nat \<times> callback) option \<Rightarrow> closure option" where
  "closureOf None = None"
| "closureOf (Some (d, SilenceTimer n)) = None"
| "closureOf (Some (d, RestartTimer c)) = Some c"
| "closureOf (Some (d, RecoveryTimer c)) = Some c"
| "closureOf (Some (d, RetryTimer c)) = Some c"
| "closureOf (Some (d, EffectTimer c)) = Some c"

text \<open>
  In the closure of every capture and of every pending timer, \<^verbatim>\<open>isAutoChat\<close> is true.
\<close>

definition closures_on :: "chat \<Rightarrow> bool" where
  "closures_on st =
     ((\<forall>s\<in>set (captures st). capturedIsAutoChat (captured s)) \<and>
      (\<forall>e\<in>set (timers st).
         case closureOf e of None \<Rightarrow> True | Some c \<Rightarrow> capturedIsAutoChat c))"

section \<open>Properties\<close>

subsection \<open>Strings\<close>

lemma trim_Nil_iff: "trim s = [] \<longleftrightarrow> (\<forall>c\<in>set s. isWhiteSpace c)"
proof -
  have rest: "dropWhile isWhiteSpace s = []"
    if a: "\<forall>c\<in>set (dropWhile isWhiteSpace s). isWhiteSpace c"
  proof (rule ccontr)
    assume ne: "dropWhile isWhiteSpace s \<noteq> []"
    then have "\<not> isWhiteSpace (hd (dropWhile isWhiteSpace s))"
      by (rule hd_dropWhile)
    moreover have "hd (dropWhile isWhiteSpace s) \<in> set (dropWhile isWhiteSpace s)"
      using ne by simp
    ultimately show False using a by blast
  qed
  have "trim s = [] \<longleftrightarrow> (\<forall>c\<in>set (dropWhile isWhiteSpace s). isWhiteSpace c)"
    by (simp add: trim_def)
  also have "\<dots> \<longleftrightarrow> (\<forall>c\<in>set s. isWhiteSpace c)"
  proof
    assume "\<forall>c\<in>set (dropWhile isWhiteSpace s). isWhiteSpace c"
    then have "dropWhile isWhiteSpace s = []" by (rule rest)
    then show "\<forall>c\<in>set s. isWhiteSpace c" by (simp only: dropWhile_eq_Nil_conv)
  next
    assume "\<forall>c\<in>set s. isWhiteSpace c"
    then show "\<forall>c\<in>set (dropWhile isWhiteSpace s). isWhiteSpace c"
      by (blast dest: set_dropWhileD)
  qed
  finally show ?thesis .
qed

subsection \<open>Blank text is not dispatched\<close>

text \<open>
  C10. For a text that is empty or consists of white space only, \<^verbatim>\<open>processAIResponse\<close>
  returns at line 63: the state it hands back is the state it was given (no message
  appended, no request created, \<^verbatim>\<open>isLoading\<close> and every other field as before), and the
  call is not suspended.
\<close>

theorem C10_blank_text_changes_nothing:
  "\<forall>c\<in>set txt. isWhiteSpace c \<Longrightarrow> processAIResponse og pf txt st = (st, False)"
  by (simp add: processAIResponse_def trim_Nil_iff)

theorem C10_blank_text_witness:
  "processAIResponse Typed (chromium 7) [CHR '' '', CHR 0x09, CHR 0x0A] init = (init, False)"
  using C10_blank_text_changes_nothing [of "[CHR '' '', CHR 0x09, CHR 0x0A]" Typed "chromium 7" init]
  by (simp add: isWhiteSpace_def)

subsection \<open>The memoised function follows the state\<close>

lemma render_sync: "in_sync (render st)"
  by (simp add: in_sync_def render_def autoChatEffect_def runCleanup_def stopListening_def
      setTimeout_def clearTimeout_def Let_def split: option.splits)

lemma reachable_sync: "reachable st \<Longrightarrow> in_sync st"
  by (induction rule: reachable.induct)
    (simp_all add: init_def in_sync_def step_def render_sync [unfolded in_sync_def])

lemma startListening_frame [simp]:
  "isAutoChat (startListening c pf st) = isAutoChat st"
  "startListeningMemo (startListening c pf st) = startListeningMemo st"
  by (simp_all add: startListening_def setTimeout_def Let_def)

lemma runCallback_frame [simp]:
  "isAutoChat (runCallback cb pf st) = isAutoChat st"
  "startListeningMemo (runCallback cb pf st) = startListeningMemo st"
  by (cases cb; simp add: silenceCallback_def awaitProcessAIResponse_def processAIResponse_def
      afterAwait_def setCapture_def Let_def split: prod.splits)+

lemma handle_frame:
  "ev \<noteq> ToggleAutoChat \<Longrightarrow>
     isAutoChat (handle pf ev st) = isAutoChat st \<and>
     startListeningMemo (handle pf ev st) = startListeningMemo st"
  by (cases ev)
    (simp_all add: fireTimer_def fetchSettled_def speechEnded_def speak_def afterSpeak_def
      finish_def afterAwait_def setCapture_def onresult_def onend_def onerror_def setTimeout_def
      clearTimeout_def micClick_def stopListening_def inputChange_def handleSubmit_def
      awaitProcessAIResponse_def processAIResponse_def Let_def
      split: option.splits task.splits origin.splits sum.splits prod.splits)

lemma step_handle:
  "in_sync st \<Longrightarrow> ev \<noteq> ToggleAutoChat \<Longrightarrow> step pf ev st = handle pf ev st"
  using handle_frame [of ev pf st] by (simp add: step_def render_def in_sync_def)

lemma reachable_run: "reachable st \<Longrightarrow> reachable (run evs st)"
proof (induction evs arbitrary: st)
  case Nil
  then show ?case by simp
next
  case (Cons e evs)
  obtain pf ev where e: "e = (pf, ev)" by (cases e)
  from Cons.prems have "reachable (step pf ev st)" by (rule reachable_step)
  then have "reachable (run evs (step pf ev st))" by (rule Cons.IH)
  with e show ?case by simp
qed

subsection \<open>Pending debounce timers\<close>

text \<open>The invariant, in the form the proofs use.\<close>

lemma debounce_ok_iff:
  "debounce_ok st \<longleftrightarrow>
     (\<forall>t n. t < length (timers st) \<longrightarrow> silenceOf (timers st ! t) = Some n \<longrightarrow>
        silenceTimerRef st = Some t \<and> n < length (captures st) \<and>
        trim (finalTranscript (captures st ! n)) \<noteq> [])"
  by (auto simp: debounce_ok_def split: option.splits)

text \<open>Clearing the timer of \<^verbatim>\<open>silenceTimerRef\<close> leaves no debounce timer pending.\<close>

lemma clear_ref_quiet:
  assumes "debounce_ok st" and "silenceTimerRef st = Some r"
  shows "\<forall>t<length (timers st). silenceOf ((timers st)[r := None] ! t) = None"
proof (intro allI impI)
  fix t assume t: "t < length (timers st)"
  show "silenceOf ((timers st)[r := None] ! t) = None"
  proof (cases "t = r")
    case True
    with t show ?thesis by simp
  next
    case False
    have "silenceOf (timers st ! t) = None"
    proof (cases "silenceOf (timers st ! t)")
      case (Some n)
      with assms t have "Some r = Some t" by (simp add: debounce_ok_iff)
      with False show ?thesis by simp
    qed simp
    with False show ?thesis by simp
  qed
qed

lemma no_ref_quiet:
  assumes "debounce_ok st" and "silenceTimerRef st = None"
  shows "\<forall>t<length (timers st). silenceOf (timers st ! t) = None"
proof (intro allI impI)
  fix t assume t: "t < length (timers st)"
  show "silenceOf (timers st ! t) = None"
  proof (cases "silenceOf (timers st ! t)")
    case (Some n)
    with assms t show ?thesis by (simp add: debounce_ok_iff)
  qed simp
qed


lemma K_startListening: "debounce_ok st \<Longrightarrow> debounce_ok (startListening c pf st)"
  unfolding debounce_ok_iff
  by (auto simp: startListening_def setTimeout_def Let_def nth_append less_Suc_eq)

lemma K_stopListening: "debounce_ok st \<Longrightarrow> debounce_ok (stopListening st)"
proof (cases "silenceTimerRef st")
  case None
  assume "debounce_ok st"
  from no_ref_quiet [OF this None] show ?thesis
    by (simp add: stopListening_def debounce_ok_iff None)
next
  case (Some r)
  assume "debounce_ok st"
  from clear_ref_quiet [OF this Some] show ?thesis
    by (simp add: stopListening_def debounce_ok_iff Some clearTimeout_def)
qed

lemma silenceOf_cleared:
  "silenceOf (xs[r := None] ! t) = Some n \<Longrightarrow> silenceOf (xs ! t) = Some n"
proof (cases "r = t")
  case True
  assume a: "silenceOf (xs[r := None] ! t) = Some n"
  show ?thesis
  proof (cases "t < length xs")
    case True
    with \<open>r = t\<close> a show ?thesis by simp
  next
    case False
    with \<open>r = t\<close> a show ?thesis by (simp add: list_update_beyond)
  qed
qed simp

lemma K_clearTimeout: "debounce_ok st \<Longrightarrow> debounce_ok (clearTimeout t st)"
  unfolding debounce_ok_iff
  by (auto simp: clearTimeout_def dest!: silenceOf_cleared)

lemma K_onresult:
  assumes "debounce_ok st" and "n < length (captures st)"
  shows "debounce_ok (onresult n ev st)"
proof -
  define st1 where "st1 = (case silenceTimerRef st of Some t \<Rightarrow> clearTimeout t st | None \<Rightarrow> st)"
  have q: "\<forall>t<length (timers st1). silenceOf (timers st1 ! t) = None"
  proof (cases "silenceTimerRef st")
    case None
    with no_ref_quiet [OF assms(1) None] show ?thesis by (simp add: st1_def)
  next
    case (Some r)
    with clear_ref_quiet [OF assms(1) Some] show ?thesis by (simp add: st1_def clearTimeout_def)
  qed
  have c: "captures st1 = captures st"
    by (simp add: st1_def clearTimeout_def split: option.splits)
  show ?thesis
    using q c assms(2)
    unfolding debounce_ok_iff onresult_def st1_def [symmetric] Let_def
    by (auto simp: setCapture_def setTimeout_def nth_append less_Suc_eq split: prod.splits)
qed


lemma K_setTimeout:
  "debounce_ok st \<Longrightarrow> silenceOf (Some (d, cb)) = None \<Longrightarrow> debounce_ok (setTimeout cb d st)"
  unfolding debounce_ok_iff
  by (auto simp: setTimeout_def nth_append less_Suc_eq)

lemma K_afterAwait: "debounce_ok st \<Longrightarrow> debounce_ok (afterAwait og st)"
  unfolding debounce_ok_iff
  by (auto simp: afterAwait_def setCapture_def nth_list_update split: origin.splits)

lemma K_finish: "debounce_ok st \<Longrightarrow> debounce_ok (finish og k st)"
proof -
  assume "debounce_ok st"
  then have "debounce_ok (st\<lparr>isLoading := False, tasks := (tasks st)[k := None]\<rparr>)"
    by (simp add: debounce_ok_iff)
  then show ?thesis unfolding finish_def by (rule K_afterAwait)
qed

lemma K_afterSpeak: "debounce_ok st \<Longrightarrow> debounce_ok (afterSpeak og k pf st)"
  by (simp add: afterSpeak_def K_finish K_startListening)

lemma K_speak: "debounce_ok st \<Longrightarrow> debounce_ok (speak txt og k pf st)"
proof -
  assume a: "debounce_ok st"
  then have "debounce_ok (st\<lparr>synthesisRef := Some txt, utterances := utterances st @ [txt],
      tasks := (tasks st)[k := Some (AwaitSpeak og)]\<rparr>)"
    by (simp add: debounce_ok_iff)
  with a show ?thesis by (simp add: speak_def K_afterSpeak)
qed

lemma K_messages: "debounce_ok st \<Longrightarrow> debounce_ok (st\<lparr>messages := ms\<rparr>)"
  by (simp add: debounce_ok_iff)

lemma K_fetchSettled: "debounce_ok st \<Longrightarrow> debounce_ok (fetchSettled k fr pf st)"
  by (simp add: fetchSettled_def K_speak K_finish K_messages
      split: option.splits task.splits sum.splits)

lemma K_speechEnded: "debounce_ok st \<Longrightarrow> debounce_ok (speechEnded k pf st)"
  by (simp add: speechEnded_def K_afterSpeak split: option.splits task.splits)

lemma K_await: "debounce_ok st \<Longrightarrow> debounce_ok (awaitProcessAIResponse og pf txt st)"
proof -
  assume a: "debounce_ok st"
  then have "debounce_ok (st\<lparr>messages := messages st @ [userMessage (now pf) txt], input := [],
      isLoading := True, tasks := tasks st @ [Some (AwaitFetch og txt)]\<rparr>)"
    by (simp add: debounce_ok_iff)
  with a show ?thesis
    by (simp add: awaitProcessAIResponse_def processAIResponse_def K_afterAwait)
qed

lemma K_silenceCallback: "debounce_ok st \<Longrightarrow> debounce_ok (silenceCallback n pf st)"
proof -
  assume a: "debounce_ok st"
  then have "debounce_ok (setCapture n (\<lambda>s. s\<lparr>isProcessing := True\<rparr>) st)"
    unfolding debounce_ok_iff by (auto simp: setCapture_def nth_list_update)
  with a show ?thesis by (simp add: silenceCallback_def Let_def K_await)
qed

lemma K_runCallback: "debounce_ok st \<Longrightarrow> debounce_ok (runCallback cb pf st)"
  by (cases cb) (simp_all add: K_silenceCallback K_startListening)

lemma K_fireTimer: "debounce_ok st \<Longrightarrow> debounce_ok (fireTimer t pf st)"
proof -
  assume a: "debounce_ok st"
  then have "debounce_ok (clearTimeout t st)" by (rule K_clearTimeout)
  then have "debounce_ok (runCallback cb pf (clearTimeout t st))" for cb by (rule K_runCallback)
  with a show ?thesis by (simp add: fireTimer_def clearTimeout_def split: option.splits)
qed

lemma K_isListening: "debounce_ok st \<Longrightarrow> debounce_ok (st\<lparr>isListening := b\<rparr>)"
  by (simp add: debounce_ok_iff)

lemma K_onend: "debounce_ok st \<Longrightarrow> debounce_ok (onend n st)"
  by (simp add: onend_def Let_def K_setTimeout K_isListening)

lemma K_onerror: "debounce_ok st \<Longrightarrow> debounce_ok (onerror n code st)"
  by (simp add: onerror_def Let_def K_setTimeout K_isListening)

lemma K_isAutoChat: "debounce_ok st \<Longrightarrow> debounce_ok (st\<lparr>isAutoChat := b\<rparr>)"
  by (simp add: debounce_ok_iff)

lemma K_toggleAutoChat: "debounce_ok st \<Longrightarrow> debounce_ok (toggleAutoChat pf st)"
  by (simp add: toggleAutoChat_def Let_def K_isAutoChat K_startListening K_stopListening)

lemma K_handleSubmit: "debounce_ok st \<Longrightarrow> debounce_ok (handleSubmit pf st)"
  by (simp add: handleSubmit_def Let_def K_await)

lemma K_micClick: "debounce_ok st \<Longrightarrow> debounce_ok (micClick pf st)"
  by (simp add: micClick_def K_startListening K_stopListening)

lemma K_inputChange: "debounce_ok st \<Longrightarrow> debounce_ok (inputChange s st)"
  by (simp add: inputChange_def debounce_ok_iff)

lemma K_handle: "debounce_ok st \<Longrightarrow> debounce_ok (handle pf ev st)"
  by (cases ev)
    (simp_all add: K_toggleAutoChat K_micClick K_inputChange K_handleSubmit K_onresult K_onend
      K_onerror K_fireTimer K_fetchSettled K_speechEnded)

lemma K_render: "debounce_ok st \<Longrightarrow> debounce_ok (render st)"
proof -
  assume a: "debounce_ok st"
  define st1 where "st1 = st\<lparr>startListeningMemo :=
    \<lparr>capturedIsAutoChat = isAutoChat st, capturedIsLoading = isLoading st\<rparr>\<rparr>"
  from a have "debounce_ok st1" by (simp add: st1_def debounce_ok_iff)
  then have "debounce_ok (runCleanup st1)"
    by (simp add: runCleanup_def K_stopListening K_clearTimeout split: option.splits)
  then have "debounce_ok (autoChatEffect (runCleanup st1))"
  proof -
    assume b: "debounce_ok (runCleanup st1)"
    have c: "debounce_ok (s\<lparr>effectCleanup := x\<rparr>)" if "debounce_ok s" for s x
      using that by (simp add: debounce_ok_iff)
    from b show ?thesis
      by (simp add: autoChatEffect_def c K_setTimeout K_stopListening)
  qed
  with a show ?thesis by (simp add: render_def st1_def)
qed

lemma K_step: "debounce_ok st \<Longrightarrow> debounce_ok (step pf ev st)"
  by (simp add: step_def K_render K_handle)

lemma reachable_debounce_ok: "reachable st \<Longrightarrow> debounce_ok st"
  by (induction rule: reachable.induct) (simp_all add: K_step, simp add: debounce_ok_def init_def)

subsection \<open>One task per processing capture\<close>

lemma filter_update_length:
  "k < length xs \<Longrightarrow>
     length (filter P (xs[k := y])) + (if P (xs ! k) then 1 else 0) =
     length (filter P xs) + (if P y then 1 else 0)"
proof (induction xs arbitrary: k)
  case Nil
  then show ?case by simp
next
  case (Cons a xs)
  show ?case
  proof (cases k)
    case 0
    then show ?thesis by simp
  next
    case (Suc j)
    with Cons.prems have "j < length xs" by simp
    from Cons.IH [OF this] Suc show ?thesis by (cases "P a") simp_all
  qed
qed

lemma awaited_in_filter:
  "k < length ts \<Longrightarrow> awaitedBy (ts ! k) = Some (Voice n) \<Longrightarrow>
     filter (\<lambda>tk. awaitedBy tk = Some (Voice n)) ts \<noteq> []"
  using nth_mem [of k ts] by (auto simp: filter_empty_conv)

lemma filter_awaited:
  "filter (\<lambda>tk. awaitedBy tk = Some (Voice n)) ts \<noteq> [] \<Longrightarrow>
     \<exists>k<length ts. awaitedBy (ts ! k) = Some (Voice n)"
  by (auto simp: filter_empty_conv in_set_conv_nth)

lemma processing_ok_iff: "processing_ok st \<longleftrightarrow> flight_ok (tasks st) (captures st)"
proof
  assume ok: "processing_ok st"
  show "flight_ok (tasks st) (captures st)"
    unfolding flight_ok_def
  proof
    fix n
    let ?P = "\<lambda>tk. awaitedBy tk = Some (Voice n)"
    show "length (filter ?P (tasks st)) =
            (if n < length (captures st) \<and> isProcessing (captures st ! n) then 1 else 0)"
    proof (cases "n < length (captures st)")
      case True
      with ok have "inFlight n st = (if isProcessing (captures st ! n) then 1 else 0)"
        by (simp add: processing_ok_def)
      with True show ?thesis by (simp add: inFlight_def)
    next
      case False
      have "filter ?P (tasks st) = []"
      proof (rule ccontr)
        assume "filter ?P (tasks st) \<noteq> []"
        then obtain k where k: "k < length (tasks st)" "awaitedBy (tasks st ! k) = Some (Voice n)"
          using filter_awaited by blast
        from ok k(1) have "case awaitedBy (tasks st ! k) of
            Some (Voice n) \<Rightarrow> n < length (captures st) | _ \<Rightarrow> True"
          by (simp add: processing_ok_def)
        with k(2) False show False by simp
      qed
      with False show ?thesis by simp
    qed
  qed
next
  assume fo: "flight_ok (tasks st) (captures st)"
  have count: "length (filter (\<lambda>tk. awaitedBy tk = Some (Voice n)) (tasks st)) =
      (if n < length (captures st) \<and> isProcessing (captures st ! n) then 1 else 0)" for n
    using fo by (simp add: flight_ok_def)
  show "processing_ok st"
    unfolding processing_ok_def
  proof (intro conjI ballI)
    fix n assume "n \<in> set [0..<length (captures st)]"
    then have "n < length (captures st)" by simp
    with count [of n]
    show "inFlight n st = (if isProcessing (captures st ! n) then 1 else 0)"
      by (simp add: inFlight_def)
  next
    fix k assume "k \<in> set [0..<length (tasks st)]"
    then have k: "k < length (tasks st)" by simp
    show "case awaitedBy (tasks st ! k) of
            Some (Voice n) \<Rightarrow> n < length (captures st) | _ \<Rightarrow> True"
    proof (cases "awaitedBy (tasks st ! k)")
      case None
      then show ?thesis by simp
    next
      case (Some og)
      show ?thesis
      proof (cases og)
        case Typed
        with Some show ?thesis by simp
      next
        case (Voice n)
        with k Some have "filter (\<lambda>tk. awaitedBy tk = Some (Voice n)) (tasks st) \<noteq> []"
          by (simp add: awaited_in_filter)
        with count [of n] have "n < length (captures st)"
          by (cases "n < length (captures st) \<and> isProcessing (captures st ! n)") simp_all
        with Some Voice show ?thesis by simp
      qed
    qed
  qed
qed

lemma FO_new_capture:
  assumes "flight_ok ts cs" and "\<not> isProcessing x"
  shows "flight_ok ts (cs @ [x])"
  unfolding flight_ok_def
proof
  fix n
  from assms(1) have "length (filter (\<lambda>tk. awaitedBy tk = Some (Voice n)) ts) =
            (if n < length cs \<and> isProcessing (cs ! n) then 1 else 0)"
    by (simp add: flight_ok_def)
  with assms(2)
  show "length (filter (\<lambda>tk. awaitedBy tk = Some (Voice n)) ts) =
            (if n < length (cs @ [x]) \<and> isProcessing ((cs @ [x]) ! n) then 1 else 0)"
    by (auto simp: nth_append less_Suc_eq split: if_splits)
qed

lemma FO_same_processing:
  assumes "flight_ok ts cs" and "isProcessing s = isProcessing (cs ! n)"
  shows "flight_ok ts (cs[n := s])"
  unfolding flight_ok_def
proof
  fix m
  from assms(1) have "length (filter (\<lambda>tk. awaitedBy tk = Some (Voice m)) ts) =
            (if m < length cs \<and> isProcessing (cs ! m) then 1 else 0)"
    by (simp add: flight_ok_def)
  with assms(2)
  show "length (filter (\<lambda>tk. awaitedBy tk = Some (Voice m)) ts) =
            (if m < length (cs[n := s]) \<and> isProcessing (cs[n := s] ! m) then 1 else 0)"
    by (cases "m = n") (auto split: if_splits)
qed

lemma FO_typed_task:
  "flight_ok ts cs \<Longrightarrow> flight_ok (ts @ [Some (AwaitFetch Typed tx)]) cs"
  by (simp add: flight_ok_def)

lemma FO_voice_task:
  assumes "flight_ok ts cs" and "n < length cs" and "\<not> isProcessing (cs ! n)"
  shows "flight_ok (ts @ [Some (AwaitFetch (Voice n) tx)]) (cs[n := (cs ! n)\<lparr>isProcessing := True\<rparr>])"
  unfolding flight_ok_def
proof
  fix m
  from assms(1) have b: "length (filter (\<lambda>tk. awaitedBy tk = Some (Voice m)) ts) =
            (if m < length cs \<and> isProcessing (cs ! m) then 1 else 0)"
    by (simp add: flight_ok_def)
  show "length (filter (\<lambda>tk. awaitedBy tk = Some (Voice m)) (ts @ [Some (AwaitFetch (Voice n) tx)])) =
     (if m < length (cs[n := (cs ! n)\<lparr>isProcessing := True\<rparr>]) \<and>
         isProcessing (cs[n := (cs ! n)\<lparr>isProcessing := True\<rparr>] ! m) then 1 else 0)"
  proof (cases "m = n")
    case True
    with b assms(2,3) show ?thesis by simp
  next
    case False
    with b show ?thesis by simp
  qed
qed

lemma FO_speak:
  assumes "flight_ok ts cs" and "k < length ts" and "awaitedBy (ts ! k) = Some og"
  shows "flight_ok (ts[k := Some (AwaitSpeak og)]) cs"
  unfolding flight_ok_def
proof
  fix m
  let ?P = "\<lambda>tk. awaitedBy tk = Some (Voice m)"
  from filter_update_length [OF assms(2), of ?P "Some (AwaitSpeak og)"] assms(3)
  have "length (filter ?P (ts[k := Some (AwaitSpeak og)])) = length (filter ?P ts)"
    by (simp split: if_splits)
  with assms(1)
  show "length (filter ?P (ts[k := Some (AwaitSpeak og)])) =
          (if m < length cs \<and> isProcessing (cs ! m) then 1 else 0)"
    by (simp add: flight_ok_def)
qed

lemma FO_settled_typed:
  assumes "flight_ok ts cs" and "k < length ts" and "awaitedBy (ts ! k) = Some Typed"
  shows "flight_ok (ts[k := None]) cs"
  unfolding flight_ok_def
proof
  fix m
  let ?P = "\<lambda>tk. awaitedBy tk = Some (Voice m)"
  from filter_update_length [OF assms(2), of ?P None] assms(3)
  have "length (filter ?P (ts[k := None])) = length (filter ?P ts)" by simp
  with assms(1)
  show "length (filter ?P (ts[k := None])) =
      (if m < length cs \<and> isProcessing (cs ! m) then 1 else 0)"
    by (simp add: flight_ok_def)
qed

lemma FO_settled_voice:
  assumes "flight_ok ts cs" and "k < length ts" and "awaitedBy (ts ! k) = Some (Voice n)"
  shows "flight_ok (ts[k := None]) (cs[n := (cs ! n)\<lparr>isProcessing := False\<rparr>])"
  unfolding flight_ok_def
proof
  fix m
  let ?P = "\<lambda>tk. awaitedBy tk = Some (Voice m)"
  from assms(1) have b: "length (filter ?P ts) =
      (if m < length cs \<and> isProcessing (cs ! m) then 1 else 0)"
    by (simp add: flight_ok_def)
  show "length (filter ?P (ts[k := None])) =
      (if m < length (cs[n := (cs ! n)\<lparr>isProcessing := False\<rparr>]) \<and>
          isProcessing (cs[n := (cs ! n)\<lparr>isProcessing := False\<rparr>] ! m) then 1 else 0)"
  proof (cases "m = n")
    case True
    from filter_update_length [OF assms(2), of ?P None] assms(3) True
    have "length (filter ?P (ts[k := None])) + 1 = length (filter ?P ts)" by simp
    moreover define c where "c = length (filter ?P (ts[k := None]))"
    ultimately have "c + 1 = (if m < length cs \<and> isProcessing (cs ! m) then 1 else 0)"
      using b by simp
    then have "c = 0"
      by (cases "m < length cs \<and> isProcessing (cs ! m)") simp_all
    with True show ?thesis by (simp add: c_def)
  next
    case False
    from filter_update_length [OF assms(2), of ?P None] assms(3) False
    have "length (filter ?P (ts[k := None])) = length (filter ?P ts)" by simp
    with b False show ?thesis by simp
  qed
qed

lemma setCapture_captures:
  "captures (setCapture n f st) = (captures st)[n := f (captures st ! n)]"
  by (simp add: setCapture_def list_update_beyond)

lemma setCapture_tasks [simp]: "tasks (setCapture n f st) = tasks st"
  by (simp add: setCapture_def)

lemma J_startListening: "processing_ok st \<Longrightarrow> processing_ok (startListening c pf st)"
  unfolding processing_ok_iff
  by (simp add: startListening_def setTimeout_def Let_def FO_new_capture)

lemma stopListening_frame [simp]:
  "tasks (stopListening st) = tasks st"
  "captures (stopListening st) = captures st"
  "messages (stopListening st) = messages st"
  "utterances (stopListening st) = utterances st"
  "isAutoChat (stopListening st) = isAutoChat st"
  "isListening (stopListening st) = False"
  by (simp_all add: stopListening_def clearTimeout_def Let_def split: option.splits)

lemma J_stopListening: "processing_ok st \<Longrightarrow> processing_ok (stopListening st)"
  unfolding processing_ok_iff by simp

lemma J_onresult: "processing_ok st \<Longrightarrow> processing_ok (onresult n ev st)"
  unfolding processing_ok_iff
  by (simp add: onresult_def Let_def setCapture_captures setTimeout_def clearTimeout_def
      FO_same_processing split: prod.splits option.splits)

lemma J_finish:
  assumes "processing_ok st" and "k < length (tasks st)" and "awaitedBy (tasks st ! k) = Some og"
  shows "processing_ok (finish og k st)"
proof (cases og)
  case Typed
  with assms show ?thesis
    unfolding processing_ok_iff by (simp add: finish_def afterAwait_def FO_settled_typed)
next
  case (Voice n)
  with assms show ?thesis
    unfolding processing_ok_iff
    by (simp add: finish_def afterAwait_def setCapture_captures FO_settled_voice)
qed

lemma J_afterSpeak:
  assumes "processing_ok st" and "k < length (tasks st)" and "awaitedBy (tasks st ! k) = Some og"
  shows "processing_ok (afterSpeak og k pf st)"
  using assms by (simp add: afterSpeak_def firstRender_def J_finish)

lemma J_speak:
  assumes "processing_ok st" and "k < length (tasks st)" and "awaitedBy (tasks st ! k) = Some og"
  shows "processing_ok (speak txt og k pf st)"
proof (cases "hasSpeechSynthesis pf")
  case True
  with assms show ?thesis
    unfolding processing_ok_iff by (simp add: speak_def FO_speak)
next
  case False
  with assms show ?thesis by (simp add: speak_def J_afterSpeak)
qed

lemma J_messages: "processing_ok (st\<lparr>messages := ms\<rparr>) = processing_ok st"
  by (simp add: processing_ok_iff)

lemma J_fetchSettled: "processing_ok st \<Longrightarrow> processing_ok (fetchSettled k fr pf st)"
  by (auto simp: fetchSettled_def J_messages intro!: J_speak J_finish
      split: option.splits task.splits sum.splits)

lemma J_speechEnded: "processing_ok st \<Longrightarrow> processing_ok (speechEnded k pf st)"
  by (auto simp: speechEnded_def intro!: J_afterSpeak split: option.splits task.splits)

lemma J_silenceCallback:
  assumes "processing_ok st" and "n < length (captures st)"
  shows "processing_ok (silenceCallback n pf st)"
  using assms unfolding processing_ok_iff
  by (simp add: silenceCallback_def Let_def awaitProcessAIResponse_def processAIResponse_def
      setCapture_captures FO_voice_task)

lemma J_typed: "processing_ok st \<Longrightarrow> processing_ok (awaitProcessAIResponse Typed pf tx st)"
  unfolding processing_ok_iff
  by (simp add: awaitProcessAIResponse_def processAIResponse_def afterAwait_def FO_typed_task)

lemma J_onend: "processing_ok st \<Longrightarrow> processing_ok (onend n st)"
  unfolding processing_ok_iff by (simp add: onend_def Let_def setTimeout_def)

lemma J_onerror: "processing_ok st \<Longrightarrow> processing_ok (onerror n code st)"
  unfolding processing_ok_iff by (simp add: onerror_def Let_def setTimeout_def)

lemma J_runCallback:
  assumes "processing_ok st" and "\<And>n. cb = SilenceTimer n \<Longrightarrow> n < length (captures st)"
  shows "processing_ok (runCallback cb pf st)"
  using assms by (cases cb) (simp_all add: J_silenceCallback J_startListening)

lemma J_fireTimer:
  assumes "processing_ok st" and "debounce_ok st"
  shows "processing_ok (fireTimer t pf st)"
proof (cases "t < length (timers st)")
  case False
  with assms(1) show ?thesis by (simp add: fireTimer_def)
next
  case True
  show ?thesis
  proof (cases "timers st ! t")
    case None
    with assms(1) show ?thesis by (simp add: fireTimer_def)
  next
    case (Some dc)
    obtain d cb where dc: "dc = (d, cb)" by (cases dc)
    let ?st = "st\<lparr>timers := (timers st)[t := None]\<rparr>"
    from assms(1) have "processing_ok ?st" by (simp add: processing_ok_iff)
    moreover have "n < length (captures ?st)" if "cb = SilenceTimer n" for n
      using that assms(2) True Some dc by (simp add: debounce_ok_iff)
    ultimately have "processing_ok (runCallback cb pf ?st)" by (rule J_runCallback)
    with True Some dc show ?thesis by (simp add: fireTimer_def)
  qed
qed

lemma J_toggleAutoChat: "processing_ok st \<Longrightarrow> processing_ok (toggleAutoChat pf st)"
proof -
  assume a: "processing_ok st"
  have b: "processing_ok (st\<lparr>isAutoChat := x\<rparr>)" for x
    using a by (simp add: processing_ok_iff)
  show ?thesis by (simp add: toggleAutoChat_def Let_def b J_startListening J_stopListening)
qed

lemma J_handle:
  "processing_ok st \<Longrightarrow> debounce_ok st \<Longrightarrow> processing_ok (handle pf ev st)"
proof (cases ev)
  case (InputChange s)
  assume "processing_ok st"
  then show ?thesis by (simp add: InputChange inputChange_def processing_ok_iff)
qed (simp_all add: J_toggleAutoChat micClick_def J_startListening J_stopListening
    handleSubmit_def Let_def J_typed J_onresult J_onend J_onerror J_fireTimer J_fetchSettled
    J_speechEnded)

lemma J_render: "processing_ok st \<Longrightarrow> processing_ok (render st)"
  unfolding processing_ok_iff
  by (simp add: render_def autoChatEffect_def runCleanup_def setTimeout_def
      clearTimeout_def Let_def split: option.splits)

lemma reachable_processing_ok: "reachable st \<Longrightarrow> processing_ok st"
proof (induction rule: reachable.induct)
  case reachable_init
  show ?case by (simp add: processing_ok_def init_def)
next
  case (reachable_step st pf ev)
  from reachable_step.hyps have "debounce_ok st" by (rule reachable_debounce_ok)
  with reachable_step.IH show ?case by (simp add: step_def J_render J_handle)
qed

lemma reachable_flight:
  assumes "reachable st"
  shows "inFlight n st = (if n < length (captures st) \<and> isProcessing (captures st ! n) then 1 else 0)"
proof -
  from assms have "flight_ok (tasks st) (captures st)"
    using reachable_processing_ok processing_ok_iff by blast
  then show ?thesis by (simp add: flight_ok_def inFlight_def)
qed

lemma reachable_inFlight: "reachable st \<Longrightarrow> inFlight n st \<le> 1"
  by (simp add: reachable_flight)

subsection \<open>Evaluating scenarios\<close>

lemmas model_defs =
  step_def render_def autoChatEffect_def runCleanup_def
  setTimeout_def clearTimeout_def setCapture_def startListening_def stopListening_def
  processAIResponse_def afterAwait_def awaitProcessAIResponse_def finish_def afterSpeak_def
  speak_def fetchSettled_def speechEnded_def onresult_def silenceCallback_def onend_def
  onerror_def fireTimer_def toggleAutoChat_def handleSubmit_def micClick_def inputChange_def
  firstRender_def chromium_def init_def Let_def

lemma listening_eq:
  "listening =
     \<lparr>messages = [], input = [], isLoading = False, isAutoChat = True, isListening = False,
      recognitionRef = Some 0, synthesisRef = None, silenceTimerRef = None,
      startListeningMemo = \<lparr>capturedIsAutoChat = True, capturedIsLoading = False\<rparr>,
      effectCleanup = Some 0,
      captures = [\<lparr>finalTranscript = [], isProcessing = False,
                   captured = \<lparr>capturedIsAutoChat = True, capturedIsLoading = False\<rparr>\<rparr>],
      timers = [None], tasks = [], utterances = [], alerts = []\<rparr>"
  by (simp add: listening_def model_defs)

lemma reachable_listening: "reachable listening"
  unfolding listening_def by (rule reachable_run) (rule reachable_init)

subsection \<open>What the closures hold\<close>

text \<open>
  A capture exists only where \<^verbatim>\<open>startListening\<close> passed its guard, and its handlers arm
  timers in the same closure: the tests of \<^verbatim>\<open>isAutoChat\<close> at lines 196, 202, 207, 232, 245
  and 259 always find it true, whatever the state is by then.
\<close>

lemma closures_on_iff:
  "closures_on st \<longleftrightarrow>
     (\<forall>s\<in>set (captures st). capturedIsAutoChat (captured s)) \<and>
     (\<forall>e c. e \<in> set (timers st) \<longrightarrow> closureOf e = Some c \<longrightarrow> capturedIsAutoChat c)"
  by (auto simp: closures_on_def split: option.splits)

lemma set_cleared: "e \<in> set (xs[t := None]) \<Longrightarrow> e = None \<or> e \<in> set xs"
  by (auto dest: set_update_subset_insert [THEN subsetD])

lemma set_capture_update:
  "s \<in> set (xs[n := y]) \<Longrightarrow> s = y \<or> s \<in> set xs"
  by (auto dest: set_update_subset_insert [THEN subsetD])

lemma C_startListening: "closures_on st \<Longrightarrow> closures_on (startListening c pf st)"
  unfolding closures_on_iff
  by (auto simp: startListening_def setTimeout_def Let_def)

lemma C_stopListening: "closures_on st \<Longrightarrow> closures_on (stopListening st)"
  unfolding closures_on_iff
  by (auto simp: stopListening_def clearTimeout_def Let_def split: option.splits
      dest!: set_cleared)

lemma C_setCapture:
  "closures_on st \<Longrightarrow> (\<And>s. captured (f s) = captured s) \<Longrightarrow> closures_on (setCapture n f st)"
  unfolding closures_on_iff
  by (auto simp: setCapture_def dest!: set_capture_update)

lemma C_onresult:
  "closures_on st \<Longrightarrow> n < length (captures st) \<Longrightarrow> closures_on (onresult n ev st)"
  unfolding closures_on_iff
  by (auto simp: onresult_def Let_def setCapture_def setTimeout_def clearTimeout_def
      split: prod.splits option.splits dest!: set_cleared set_capture_update)

lemma C_await: "closures_on st \<Longrightarrow> closures_on (awaitProcessAIResponse og pf tx st)"
  unfolding closures_on_iff
  by (auto simp: awaitProcessAIResponse_def processAIResponse_def afterAwait_def setCapture_def
      split: origin.splits dest!: set_capture_update)

lemma C_finish: "closures_on st \<Longrightarrow> closures_on (finish og k st)"
  unfolding closures_on_iff
  by (auto simp: finish_def afterAwait_def setCapture_def
      split: origin.splits dest!: set_capture_update)

lemma C_afterSpeak: "closures_on st \<Longrightarrow> closures_on (afterSpeak og k pf st)"
  by (simp add: afterSpeak_def C_finish C_startListening)

lemma C_speak: "closures_on st \<Longrightarrow> closures_on (speak tx og k pf st)"
proof -
  assume a: "closures_on st"
  then have "closures_on (st\<lparr>synthesisRef := Some tx, utterances := utterances st @ [tx],
      tasks := (tasks st)[k := Some (AwaitSpeak og)]\<rparr>)"
    by (simp add: closures_on_iff)
  with a show ?thesis by (simp add: speak_def C_afterSpeak)
qed

lemma C_fetchSettled: "closures_on st \<Longrightarrow> closures_on (fetchSettled k fr pf st)"
proof -
  assume a: "closures_on st"
  then have "closures_on (st\<lparr>messages := ms\<rparr>)" for ms by (simp add: closures_on_iff)
  with a show ?thesis
    by (simp add: fetchSettled_def C_speak C_finish split: option.splits task.splits sum.splits)
qed

lemma C_speechEnded: "closures_on st \<Longrightarrow> closures_on (speechEnded k pf st)"
  by (simp add: speechEnded_def C_afterSpeak split: option.splits task.splits)

lemma C_silenceCallback: "closures_on st \<Longrightarrow> closures_on (silenceCallback n pf st)"
  by (simp add: silenceCallback_def Let_def C_await C_setCapture)

lemma C_runCallback: "closures_on st \<Longrightarrow> closures_on (runCallback cb pf st)"
  by (cases cb) (simp_all add: C_silenceCallback C_startListening)

lemma C_fireTimer: "closures_on st \<Longrightarrow> closures_on (fireTimer t pf st)"
proof -
  assume a: "closures_on st"
  then have "closures_on (st\<lparr>timers := (timers st)[t := None]\<rparr>)"
    unfolding closures_on_iff by (auto dest!: set_cleared)
  then have "closures_on (runCallback cb pf (st\<lparr>timers := (timers st)[t := None]\<rparr>))" for cb
    by (rule C_runCallback)
  with a show ?thesis by (simp add: fireTimer_def split: option.splits)
qed

lemma C_onend:
  "closures_on st \<Longrightarrow> n < length (captures st) \<Longrightarrow> closures_on (onend n st)"
  unfolding closures_on_iff
  by (auto simp: onend_def Let_def setTimeout_def)

lemma C_onerror:
  "closures_on st \<Longrightarrow> n < length (captures st) \<Longrightarrow> closures_on (onerror n code st)"
  unfolding closures_on_iff
  by (auto simp: onerror_def Let_def setTimeout_def)

lemma C_toggleAutoChat: "closures_on st \<Longrightarrow> closures_on (toggleAutoChat pf st)"
proof -
  assume a: "closures_on st"
  then have "closures_on (st\<lparr>isAutoChat := b\<rparr>)" for b by (simp add: closures_on_iff)
  then show ?thesis by (simp add: toggleAutoChat_def Let_def C_startListening C_stopListening)
qed

lemma C_handle: "closures_on st \<Longrightarrow> closures_on (handle pf ev st)"
proof (cases ev)
  case (InputChange s)
  assume "closures_on st"
  then show ?thesis by (simp add: InputChange inputChange_def closures_on_iff)
qed (simp_all add: C_toggleAutoChat micClick_def C_startListening C_stopListening
    handleSubmit_def Let_def C_await C_onresult C_onend C_onerror C_fireTimer C_fetchSettled
    C_speechEnded)

lemma C_render: "closures_on st \<Longrightarrow> closures_on (render st)"
proof (cases "capturedIsAutoChat (startListeningMemo st) = isAutoChat st")
  case True
  assume "closures_on st"
  with True show ?thesis by (simp add: render_def)
next
  case False
  assume a: "closures_on st"
  define st1 where "st1 = st\<lparr>startListeningMemo :=
    \<lparr>capturedIsAutoChat = isAutoChat st, capturedIsLoading = isLoading st\<rparr>\<rparr>"
  from a have "closures_on st1" by (simp add: st1_def closures_on_iff)
  then have b: "closures_on (runCleanup st1)"
    unfolding runCleanup_def
    by (auto simp: closures_on_iff clearTimeout_def stopListening_def Let_def
        split: option.splits dest!: set_cleared)
  have m: "startListeningMemo (runCleanup st1) =
      \<lparr>capturedIsAutoChat = isAutoChat st, capturedIsLoading = isLoading st\<rparr>"
    and i: "isAutoChat (runCleanup st1) = isAutoChat st"
    by (simp_all add: st1_def runCleanup_def clearTimeout_def stopListening_def Let_def
        split: option.splits)
  have "closures_on (autoChatEffect (runCleanup st1))"
  proof (cases "isAutoChat st")
    case True
    with b m i show ?thesis
      by (auto simp: autoChatEffect_def closures_on_iff setTimeout_def)
  next
    case False
    from C_stopListening [OF b] have "closures_on ((stopListening (runCleanup st1))\<lparr>effectCleanup := None\<rparr>)"
      by (simp add: closures_on_iff)
    with False i show ?thesis by (simp add: autoChatEffect_def)
  qed
  with False show ?thesis by (simp add: render_def st1_def)
qed

lemma reachable_closures_on: "reachable st \<Longrightarrow> closures_on st"
  by (induction rule: reachable.induct)
    (simp_all add: step_def C_render C_handle, simp add: closures_on_def init_def)

text \<open>
  So a pending restart timer, when it fires, calls \<^verbatim>\<open>startListening\<close> and the call passes
  the guard, whether the user has switched auto-chat off in the meantime or not.
\<close>

lemma restart_fires_whatever_the_state:
  assumes "reachable st" and "t < length (timers st)"
    and "timers st ! t = Some (d, RestartTimer c)"
  shows "capturedIsAutoChat c"
    and "step pf (Timeout t) st = startListening c pf (st\<lparr>timers := (timers st)[t := None]\<rparr>)"
proof -
  from assms(2,3) have "Some (d, RestartTimer c) \<in> set (timers st)"
    by (auto simp: in_set_conv_nth)
  with reachable_closures_on [OF assms(1)] show c: "capturedIsAutoChat c"
    by (auto simp: closures_on_iff)
  from assms(1) have "in_sync st" by (rule reachable_sync)
  then have "step pf (Timeout t) st = handle pf (Timeout t) st"
    by (rule step_handle) simp
  with assms(2,3) c
  show "step pf (Timeout t) st = startListening c pf (st\<lparr>timers := (timers st)[t := None]\<rparr>)"
    by (simp add: fireTimer_def)
qed

subsection \<open>Errors of the capture\<close>

text \<open>
  The handler of an error with the code \<^verbatim>\<open>no-speech\<close> or \<^verbatim>\<open>not-allowed\<close> sets
  \<^verbatim>\<open>isListening\<close> to false and does nothing else.
\<close>

lemma fatal_error_handler:
  assumes "reachable st" and "n < length (captures st)"
    and "code = ''no-speech'' \<or> code = ''not-allowed''"
  shows "step pf (SessionError n code) st = st\<lparr>isListening := False\<rparr>"
proof -
  from assms(1) have "in_sync st" by (rule reachable_sync)
  then have "step pf (SessionError n code) st = handle pf (SessionError n code) st"
    by (rule step_handle) simp
  also from assms(2,3) have "\<dots> = st\<lparr>isListening := False\<rparr>"
    by (auto simp: onerror_def)
  finally show ?thesis .
qed

text \<open>
  But \<^verbatim>\<open>onend\<close> knows nothing of the error: in every reachable state the end of a capture
  arms the restart timer, in the closure of that capture, where \<^verbatim>\<open>isAutoChat\<close> is true.
\<close>

lemma end_arms_restart:
  assumes "reachable st" and "n < length (captures st)"
  shows "capturedIsAutoChat (captured (captures st ! n))"
    and "step pf (SessionEnd n) st =
           setTimeout (RestartTimer (captured (captures st ! n)))
             (if capturedIsLoading (captured (captures st ! n)) then 1000 else 300) st"
proof -
  from assms(2) have "captures st ! n \<in> set (captures st)" by simp
  with reachable_closures_on [OF assms(1)]
  show c: "capturedIsAutoChat (captured (captures st ! n))"
    by (simp add: closures_on_iff)
  from assms(1) have "in_sync st" by (rule reachable_sync)
  then have "step pf (SessionEnd n) st = handle pf (SessionEnd n) st"
    by (rule step_handle) simp
  with assms(2) c
  show "step pf (SessionEnd n) st =
      setTimeout (RestartTimer (captured (captures st ! n)))
        (if capturedIsLoading (captured (captures st ! n)) then 1000 else 300) st"
    by (simp add: onend_def Let_def)
qed

text \<open>
  C4. The claim fails on the code. Capture 0 is open (\<open>listening\<close>) and reports the error
  \<^verbatim>\<open>no-speech\<close>: the error handler arms no timer. The recognition then ends, as it does
  after an error, and \<^verbatim>\<open>onend\<close> arms the restart timer (timer 1) without regard to the
  error (\<open>afterFatalError\<close>). When that timer fires, \<^verbatim>\<open>startListening\<close> runs and opens
  capture 1: listening is resumed with no action of the user. The same holds for
  \<^verbatim>\<open>not-allowed\<close>, since neither \<^verbatim>\<open>onend\<close> nor the timer reads the error code.
\<close>

theorem C4_restart_after_fatal_error:
  "timers listening = [None] \<and>
   timers (step (chromium 3) (SessionError 0 ''no-speech'') listening) = [None] \<and>
   timers (step (chromium 3) (SessionError 0 ''not-allowed'') listening) = [None] \<and>
   timers afterFatalError =
     [None, Some (300, RestartTimer \<lparr>capturedIsAutoChat = True, capturedIsLoading = False\<rparr>)] \<and>
   length (captures afterFatalError) = 1 \<and>
   length (captures (step (chromium 5) (Timeout 1) afterFatalError)) = 2 \<and>
   recognitionRef (step (chromium 5) (Timeout 1) afterFatalError) = Some 1 \<and>
   timers (step (chromium 5) (Timeout 1) afterFatalError) = [None, None]"
  by (simp add: afterFatalError_def listening_eq model_defs)

subsection \<open>Auto-chat switched off while a restart is pending\<close>

text \<open>
  C1. The claim fails on the code. Capture 0 is open (\<open>listening\<close>); its session ends,
  and \<^verbatim>\<open>onend\<close> arms the restart timer (timer 1) in the closure in which \<^verbatim>\<open>isAutoChat\<close>
  is true. The user then switches auto-chat off (\<open>switchedOff\<close>): \<^verbatim>\<open>isAutoChat\<close> and
  \<^verbatim>\<open>isListening\<close> are false and the timer is still pending, since \<^verbatim>\<open>stopListening\<close> clears the debounce
  timer only. When timer 1 fires, its test of \<^verbatim>\<open>isAutoChat\<close> (line 207) and the guard of
  \<^verbatim>\<open>startListening\<close> (line 128) read the constant of that closure, which is still
  true: \<^verbatim>\<open>startListening\<close> runs and opens capture 1 while auto-chat is off. By
  \<open>restart_fires_whatever_the_state\<close> this is so for every pending restart timer of
  every reachable state.
\<close>

theorem C1_pending_restart_fires_after_disable:
  "isAutoChat switchedOff = False \<and> isListening switchedOff = False \<and>
   timers switchedOff ! 1 =
     Some (300, RestartTimer \<lparr>capturedIsAutoChat = True, capturedIsLoading = False\<rparr>) \<and>
   length (captures switchedOff) = 1 \<and> recognitionRef switchedOff = None \<and>
   isAutoChat (step (chromium 5) (Timeout 1) switchedOff) = False \<and>
   length (captures (step (chromium 5) (Timeout 1) switchedOff)) = 2 \<and>
   recognitionRef (step (chromium 5) (Timeout 1) switchedOff) = Some 1"
  by (simp add: switchedOff_def listening_eq model_defs)

subsection \<open>Starting without the capability, or with auto-chat off\<close>

text \<open>
  C9. The claim fails on the code, by the defect of C1: \<^verbatim>\<open>startListening\<close> tests the
  \<^verbatim>\<open>isAutoChat\<close> of its closure, and the function a pending restart timer holds is not
  stopped by the state being off. In \<open>switchedOff\<close>, where auto-chat is off, the call
  that the pending timer makes is not a no-op: it opens capture 1.
\<close>

theorem C9_stale_startListening_runs_when_off:
  "isAutoChat switchedOff = False \<and>
   timers switchedOff ! 1 =
     Some (300, RestartTimer \<lparr>capturedIsAutoChat = True, capturedIsLoading = False\<rparr>) \<and>
   recognitionRef switchedOff = None \<and>
   recognitionRef
     (startListening \<lparr>capturedIsAutoChat = True, capturedIsLoading = False\<rparr> (chromium 5)
        switchedOff) = Some 1"
  by (simp add: switchedOff_def listening_eq model_defs)

text \<open>
  The rest of the claim holds. When \<^verbatim>\<open>startListening\<close> passes its guard and the platform
  has no speech recognition, it drops the reference to the previous recognition object,
  raises one alert and returns: \<^verbatim>\<open>isListening\<close> is not set, no capture is created and no
  timer is armed. And the \<^verbatim>\<open>startListening\<close> of the current render, the one the buttons
  and \<^verbatim>\<open>toggleAutoChat\<close> call, changes nothing when \<^verbatim>\<open>isAutoChat\<close> is false.
\<close>

lemma startListening_unsupported:
  "capturedIsAutoChat c \<Longrightarrow> \<not> hasSpeechRecognition pf \<Longrightarrow>
     startListening c pf st = st\<lparr>recognitionRef := None, alerts := alerts st @ [unsupported]\<rparr>"
  by (simp add: startListening_def)

lemma startListening_off:
  assumes "reachable st" and "\<not> isAutoChat st"
  shows "startListening (startListeningMemo st) pf st = st"
proof -
  from assms(1) have "in_sync st" by (rule reachable_sync)
  with assms(2) show ?thesis by (simp add: startListening_def in_sync_def)
qed

subsection \<open>The message log\<close>

lemma messages_startListening [simp]: "messages (startListening c pf st) = messages st"
  by (simp add: startListening_def setTimeout_def Let_def)

lemma messages_afterAwait [simp]: "messages (afterAwait og st) = messages st"
  by (simp add: afterAwait_def setCapture_def split: origin.splits)

lemma messages_finish [simp]: "messages (finish og k st) = messages st"
  by (simp add: finish_def)

lemma messages_afterSpeak [simp]: "messages (afterSpeak og k pf st) = messages st"
  by (simp add: afterSpeak_def)

lemma messages_speak [simp]: "messages (speak txt og k pf st) = messages st"
  by (simp add: speak_def)

lemma messages_speechEnded [simp]: "messages (speechEnded k pf st) = messages st"
  by (simp add: speechEnded_def split: option.splits task.splits)

lemma messages_render [simp]: "messages (render st) = messages st"
  by (simp add: render_def autoChatEffect_def runCleanup_def setTimeout_def clearTimeout_def
      split: option.splits)

lemma messages_fetchSettled:
  "prefix (messages st) (messages (fetchSettled k fr pf st))"
  by (simp add: fetchSettled_def split: option.splits task.splits sum.splits)

lemma messages_await:
  "prefix (messages st) (messages (awaitProcessAIResponse og pf txt st))"
  by (simp add: awaitProcessAIResponse_def processAIResponse_def)

lemma messages_setCapture [simp]: "messages (setCapture n f st) = messages st"
  by (simp add: setCapture_def)

lemma messages_runCallback:
  "prefix (messages st) (messages (runCallback cb pf st))"
proof (cases cb)
  case (SilenceTimer n)
  let ?st = "setCapture n (\<lambda>s. s\<lparr>isProcessing := True\<rparr>) st"
  have "prefix (messages ?st)
      (messages (awaitProcessAIResponse (Voice n) pf (finalTranscript (captures st ! n)) ?st))"
    by (rule messages_await)
  then show ?thesis
    by (simp add: SilenceTimer silenceCallback_def Let_def)
qed simp_all

lemma messages_fireTimer:
  "prefix (messages st) (messages (fireTimer t pf st))"
proof -
  have "prefix (messages (st\<lparr>timers := ts\<rparr>)) (messages (runCallback cb pf (st\<lparr>timers := ts\<rparr>)))"
    for ts cb by (rule messages_runCallback)
  then show ?thesis by (simp add: fireTimer_def split: option.splits)
qed

lemma messages_handle: "prefix (messages st) (messages (handle pf ev st))"
  by (cases ev)
    (simp_all add: toggleAutoChat_def micClick_def inputChange_def handleSubmit_def Let_def
      messages_await onresult_def setCapture_def setTimeout_def clearTimeout_def onend_def
      onerror_def messages_fireTimer messages_fetchSettled split: option.splits prod.splits)

lemma messages_step: "prefix (messages st) (messages (step pf ev st))"
  by (simp add: step_def messages_handle)

lemma fetchSettled_reply:
  assumes "k < length (tasks st)" and "tasks st ! k = Some (AwaitFetch og txt)"
    and "replyText fr = Inr reply"
  shows "messages (fetchSettled k fr pf st) = messages st @ [aiMessage (now pf) reply]"
  using assms by (simp add: fetchSettled_def)

text \<open>
  C7. A text that is not blank is dispatched by \<^verbatim>\<open>processAIResponse\<close>, which appends
  one message with the sender \<^verbatim>\<open>user\<close>, the given text, and the clock reading as id and
  time; when the request of that task settles with a reply, one message with the sender
  \<^verbatim>\<open>ai\<close> and the text of the reply is appended; the end of the utterance appends
  nothing. So the log after the exchange is the log before it, the user message, the
  assistant message. The assistant message is appended to whatever the log is when the
  request settles, and no event ever removes or changes a message: the log before an event
  is a prefix of the log after it.
\<close>

theorem C7_dispatch_appends_user_then_assistant:
  assumes "trim txt \<noteq> []" and "replyText fr = Inr reply"
  shows "(let k = length (tasks st);
              st1 = fst (processAIResponse og pf1 txt st);
              st2 = fetchSettled k fr pf2 st1;
              st3 = speechEnded k pf3 st2
          in messages st1 = messages st @
               [\<lparr>msg_id = toString (now pf1), msg_text = txt, msg_sender = User,
                 timestamp = now pf1\<rparr>] \<and>
             tasks st1 = tasks st @ [Some (AwaitFetch og txt)] \<and>
             messages st2 = messages st @
               [\<lparr>msg_id = toString (now pf1), msg_text = txt, msg_sender = User,
                 timestamp = now pf1\<rparr>,
                \<lparr>msg_id = toString (now pf2), msg_text = reply, msg_sender = Ai,
                 timestamp = now pf2\<rparr>] \<and>
             messages st3 = messages st2) \<and>
         (\<forall>s j. j < length (tasks s) \<and> tasks s ! j = Some (AwaitFetch og txt) \<longrightarrow>
            messages (fetchSettled j fr pf2 s) = messages s @
              [\<lparr>msg_id = toString (now pf2), msg_text = reply, msg_sender = Ai,
                timestamp = now pf2\<rparr>]) \<and>
         (\<forall>pf ev s. prefix (messages s) (messages (step pf ev s)))"
proof (intro conjI allI impI)
  let ?st1 = "fst (processAIResponse og pf1 txt st)"
  let ?u = "\<lparr>msg_id = toString (now pf1), msg_text = txt, msg_sender = User,
             timestamp = now pf1\<rparr>"
  let ?a = "\<lparr>msg_id = toString (now pf2), msg_text = reply, msg_sender = Ai,
             timestamp = now pf2\<rparr>"
  from assms(1) have m1: "messages ?st1 = messages st @ [?u]"
    and t1: "tasks ?st1 = tasks st @ [Some (AwaitFetch og txt)]"
    by (simp_all add: processAIResponse_def userMessage_def)
  from t1 have "length (tasks st) < length (tasks ?st1)"
    and "tasks ?st1 ! length (tasks st) = Some (AwaitFetch og txt)"
    by simp_all
  from fetchSettled_reply [OF this assms(2)] m1
  have m2: "messages (fetchSettled (length (tasks st)) fr pf2 ?st1) = messages st @ [?u, ?a]"
    by (simp add: aiMessage_def)
  from m1 t1 m2
  show "let k = length (tasks st);
            st1 = fst (processAIResponse og pf1 txt st);
            st2 = fetchSettled k fr pf2 st1;
            st3 = speechEnded k pf3 st2
        in messages st1 = messages st @ [?u] \<and>
           tasks st1 = tasks st @ [Some (AwaitFetch og txt)] \<and>
           messages st2 = messages st @ [?u, ?a] \<and>
           messages st3 = messages st2"
    by (simp add: Let_def)
next
  fix s :: chat and j
  assume "j < length (tasks s) \<and> tasks s ! j = Some (AwaitFetch og txt)"
  with assms(2) show "messages (fetchSettled j fr pf2 s) = messages s @
      [\<lparr>msg_id = toString (now pf2), msg_text = reply, msg_sender = Ai, timestamp = now pf2\<rparr>]"
    by (simp add: fetchSettled_reply aiMessage_def)
next
  fix pf ev and s :: chat
  show "prefix (messages s) (messages (step pf ev s))" by (rule messages_step)
qed

theorem C7_dispatch_witness:
  "messages
     (speechEnded 0 (chromium 1714)
        (fetchSettled 0 (textReply ''hi'') (chromium 1713)
           (fst (processAIResponse Typed (chromium 1712) ''hello'' init)))) =
     [\<lparr>msg_id = ''1712'', msg_text = ''hello'', msg_sender = User, timestamp = 1712\<rparr>,
      \<lparr>msg_id = ''1713'', msg_text = ''hi'', msg_sender = Ai, timestamp = 1713\<rparr>] \<and>
   messages
     (fetchSettled 0
        (Resolved \<lparr>ok = True, status = 200, contentType = Some ''application/json; charset=utf-8'',
                   json_body = Some \<lparr>data_response = None, data_output = Some ''four''\<rparr>,
                   text_body = None\<rparr>)
        (chromium 8)
        (fst (processAIResponse (Voice 0) (chromium 7) ''two and two'' listening))) =
     [\<lparr>msg_id = ''7'', msg_text = ''two and two'', msg_sender = User, timestamp = 7\<rparr>,
      \<lparr>msg_id = ''8'', msg_text = ''four'', msg_sender = Ai, timestamp = 8\<rparr>]"
proof -
  have blank: "trim ''hello'' \<noteq> []" "trim ''two and two'' \<noteq> []"
    by (simp_all add: trim_def isWhiteSpace_def)
  have r1: "replyText (textReply ''hi'') = Inr ''hi''"
    by (simp add: textReply_def replyText_def truthy_def)
  have r2: "replyText
      (Resolved \<lparr>ok = True, status = 200, contentType = Some ''application/json; charset=utf-8'',
                 json_body = Some \<lparr>data_response = None, data_output = Some ''four''\<rparr>,
                 text_body = None\<rparr>) = Inr ''four''"
    by (simp add: replyText_def truthy_def aiTextOfData_def)
  have nw: "now (chromium t) = t" for t by (simp add: chromium_def)
  have e: "messages init = []" "tasks init = []" "messages listening = []" "tasks listening = []"
    by (simp_all add: init_def listening_eq)
  have d: "toString 1712 = ''1712''" "toString 1713 = ''1713''" "toString 7 = ''7''"
    "toString 8 = ''8''"
    by code_simp+
  from C7_dispatch_appends_user_then_assistant
      [OF blank(1) r1, of init Typed "chromium 1712" "chromium 1713" "chromium 1714"]
    C7_dispatch_appends_user_then_assistant
      [OF blank(2) r2, of listening "Voice 0" "chromium 7" "chromium 8" "chromium 9"]
  show ?thesis
    by (simp add: Let_def d nw e del: toString.simps)
qed

subsection \<open>A dispatch that fails\<close>

text \<open>
  C3, as stated, fails. The browser has speech synthesis; the request for ``hello'' is
  out (\<open>dispatched\<close>) and is rejected. The log then holds the user message
  and the apology, the exchange is over (its task is settled, \<^verbatim>\<open>isLoading\<close> is false),
  and nothing was handed to the speech synthesis. When the same request succeeds, the
  reply is spoken.
\<close>

theorem C3_failure_is_not_spoken:
  "hasSpeechSynthesis (chromium 5) \<and>
   map msg_text (messages (step (chromium 5) (FetchSettled 0 Rejected) dispatched)) =
     [''hello'', apology] \<and>
   utterances (step (chromium 5) (FetchSettled 0 Rejected) dispatched) = [] \<and>
   tasks (step (chromium 5) (FetchSettled 0 Rejected) dispatched) = [None] \<and>
   isLoading (step (chromium 5) (FetchSettled 0 Rejected) dispatched) = False \<and>
   map msg_text (messages (step (chromium 5) (FetchSettled 0 (textReply ''hi'')) dispatched)) =
     [''hello'', ''hi''] \<and>
   utterances (step (chromium 5) (FetchSettled 0 (textReply ''hi'')) dispatched) = [''hi'']"
  by (simp add: dispatched_def heardHello_def listening_eq model_defs finalEvent_def
      textReply_def replyText_def truthy_def trim_def isWhiteSpace_def userMessage_def
      aiMessage_def errorMessage_def)

text \<open>
  C3, amended. When the request of a task fails (the promise rejects, the status is not
  a success, or the body cannot be read), the \<^verbatim>\<open>catch\<close> block appends the fixed apology as
  an assistant message and the \<^verbatim>\<open>finally\<close> block clears \<^verbatim>\<open>isLoading\<close>; the call ends
  there and its caller goes on. The error is consumed: the result is a state, for every
  failure. Nothing is spoken, no timer is armed, no capture is opened and
  \<^verbatim>\<open>isListening\<close> keeps its value.
\<close>

theorem C3_failed_dispatch_appends_apology:
  assumes "reachable st" and "k < length (tasks st)"
    and "tasks st ! k = Some (AwaitFetch og txt)" and "replyText fr = Inl e"
  shows "step pf (FetchSettled k fr) st =
           afterAwait og (st\<lparr>messages := messages st @ [aiMessage (now pf) apology],
                               isLoading := False,
                               tasks := (tasks st)[k := None]\<rparr>) \<and>
         utterances (step pf (FetchSettled k fr) st) = utterances st \<and>
         timers (step pf (FetchSettled k fr) st) = timers st \<and>
         length (captures (step pf (FetchSettled k fr) st)) = length (captures st) \<and>
         recognitionRef (step pf (FetchSettled k fr) st) = recognitionRef st \<and>
         isListening (step pf (FetchSettled k fr) st) = isListening st"
proof -
  from assms(1) have "in_sync st" by (rule reachable_sync)
  then have "step pf (FetchSettled k fr) st = handle pf (FetchSettled k fr) st"
    by (rule step_handle) simp
  also from assms(2-4) have "\<dots> =
      afterAwait og (st\<lparr>messages := messages st @ [aiMessage (now pf) apology],
                          isLoading := False, tasks := (tasks st)[k := None]\<rparr>)"
    by (simp add: fetchSettled_def finish_def errorMessage_def)
  finally have eq: "step pf (FetchSettled k fr) st =
      afterAwait og (st\<lparr>messages := messages st @ [aiMessage (now pf) apology],
                          isLoading := False, tasks := (tasks st)[k := None]\<rparr>)" .
  show ?thesis
    unfolding eq by (simp add: afterAwait_def setCapture_def split: origin.splits)
qed

theorem C3_failed_dispatch_witness:
  "step (chromium 5) (FetchSettled 0 Rejected) dispatched =
   afterAwait (Voice 0)
     (dispatched\<lparr>messages := [userMessage 4 ''hello'', aiMessage 5 apology],
                 isLoading := False, tasks := [None]\<rparr>)"
proof -
  have r: "reachable dispatched"
    unfolding dispatched_def heardHello_def
    by (intro reachable_run reachable_listening)
  have t: "tasks dispatched = [Some (AwaitFetch (Voice 0) ''hello'')]"
    and m: "messages dispatched = [userMessage 4 ''hello'']"
    by (simp_all add: dispatched_def heardHello_def listening_eq model_defs finalEvent_def
        trim_def isWhiteSpace_def)
  from t have "0 < length (tasks dispatched)"
    and "tasks dispatched ! 0 = Some (AwaitFetch (Voice 0) ''hello'')"
    by simp_all
  from C3_failed_dispatch_appends_apology [OF r this, of Rejected NetworkError "chromium 5"] t m
  show ?thesis by (simp add: replyText_def chromium_def)
qed

subsection \<open>Transcript events\<close>

lemma scanResults_fst:
  "fst (scanResults rs (fin, interim)) =
     (if filter isFinal rs = [] then fin else transcript (last (filter isFinal rs)))"
  by (induction rs arbitrary: fin interim) simp_all

lemma scanResults_interim:
  "\<forall>r\<in>set rs. \<not> isFinal r \<Longrightarrow>
     scanResults rs (fin, interim) = (fin, if rs = [] then interim else transcript (last rs))"
  by (induction rs arbitrary: interim) simp_all

lemma onresult_captures:
  "n < length (captures st) \<Longrightarrow>
     captures (onresult n ev st) =
       (captures st)[n := (captures st ! n)
          \<lparr>finalTranscript := fst (scanResults (drop (resultIndex ev) (results ev))
                                   (finalTranscript (captures st ! n), []))\<rparr>]"
  by (simp add: onresult_def Let_def setCapture_def setTimeout_def clearTimeout_def
      split: prod.splits option.splits)


lemma onresult_final:
  assumes "n < length (captures st)" and "trim s \<noteq> []"
  shows "onresult n (finalEvent s) st =
     st\<lparr>captures := (captures st)[n := (captures st ! n)\<lparr>finalTranscript := s\<rparr>],
        input := s,
        timers := cancelled st @ [Some (1000, SilenceTimer n)],
        silenceTimerRef := Some (length (timers st))\<rparr>"
proof -
  from assms(2) have "s \<noteq> []" by (auto simp: trim_def)
  with assms show ?thesis
    by (cases "silenceTimerRef st")
      (simp_all add: onresult_def finalEvent_def cancelled_def Let_def setCapture_def
        setTimeout_def clearTimeout_def)
qed

lemma silenceCallback_dispatch:
  assumes "n < length (captures st)" and "trim (finalTranscript (captures st ! n)) \<noteq> []"
    and "\<not> isProcessing (captures st ! n)"
  shows "silenceCallback n pf st =
     st\<lparr>captures := (captures st)[n := (captures st ! n)\<lparr>isProcessing := True\<rparr>],
        messages := messages st @ [userMessage (now pf) (finalTranscript (captures st ! n))],
        input := [],
        isLoading := True,
        tasks := tasks st @ [Some (AwaitFetch (Voice n) (finalTranscript (captures st ! n)))]\<rparr>"
  using assms
  by (simp add: silenceCallback_def Let_def awaitProcessAIResponse_def processAIResponse_def
      setCapture_def)

lemma silenceCallback_dropped:
  "isProcessing (captures st ! n) \<Longrightarrow> silenceCallback n pf st = st"
  by (simp add: silenceCallback_def Let_def)

text \<open>
  C6. When the results of a transcript event, from \<open>resultIndex\<close> on, hold one or more
  final results, the \<^verbatim>\<open>finalTranscript\<close> of the capture after the event is the transcript of
  the last of them alone: earlier finals of the batch are overwritten, nothing is
  concatenated. And when a capture that is not processing reports the final transcript
  ``hi'' and then, before the debounce timer has fired, the final transcript ``hi there'',
  the timer armed for ``hi'' is cleared, and the fire of the second timer sends one
  request, with the text ``hi there'', and appends one user message, with that text.
\<close>

theorem C6_latest_final_wins:
  assumes "reachable st" and "n < length (captures st)"
  shows "(filter isFinal (drop (resultIndex ev) (results ev)) \<noteq> [] \<longrightarrow>
            finalTranscript (captures (step pf (Result n ev) st) ! n) =
              transcript (last (filter isFinal (drop (resultIndex ev) (results ev))))) \<and>
         (\<not> isProcessing (captures st ! n) \<longrightarrow>
            (let s2 = run [(pf1, Result n (finalEvent ''hi'')),
                           (pf2, Result n (finalEvent ''hi there''))] st;
                 s3 = step pf3 (Timeout (Suc (length (timers st)))) s2
             in timers s2 = cancelled st @ [None, Some (1000, SilenceTimer n)] \<and>
                tasks s2 = tasks st \<and> messages s2 = messages st \<and>
                tasks s3 = tasks st @ [Some (AwaitFetch (Voice n) ''hi there'')] \<and>
                messages s3 = messages st @ [userMessage (now pf3) ''hi there'']))"
proof (intro conjI impI)
  from assms(1) have sync: "in_sync st" by (rule reachable_sync)
  assume "filter isFinal (drop (resultIndex ev) (results ev)) \<noteq> []"
  with assms(2) show "finalTranscript (captures (step pf (Result n ev) st) ! n) =
      transcript (last (filter isFinal (drop (resultIndex ev) (results ev))))"
    by (simp add: step_handle [OF sync] onresult_captures scanResults_fst)
next
  assume idle: "\<not> isProcessing (captures st ! n)"
  have hi: "trim ''hi'' \<noteq> []" and there: "trim ''hi there'' \<noteq> []"
    by (simp_all add: trim_def isWhiteSpace_def)
  define s1 where "s1 = step pf1 (Result n (finalEvent ''hi'')) st"
  define s2 where "s2 = step pf2 (Result n (finalEvent ''hi there'')) s1"
  have r1: "reachable s1" unfolding s1_def using assms(1) by (rule reachable_step)
  then have r2: "reachable s2" unfolding s2_def by (rule reachable_step)
  have e1: "s1 = onresult n (finalEvent ''hi'') st"
    using assms(2) by (simp add: s1_def step_handle [OF reachable_sync [OF assms(1)]])
  have n1: "n < length (captures s1)"
    using assms(2) by (simp add: e1 onresult_final [OF assms(2) hi])
  have e2: "s2 = onresult n (finalEvent ''hi there'') s1"
    using n1 by (simp add: s2_def step_handle [OF reachable_sync [OF r1]])
  have s2: "s2 =
     st\<lparr>captures := (captures st)[n := (captures st ! n)\<lparr>finalTranscript := ''hi there''\<rparr>],
        input := ''hi there'',
        timers := cancelled st @ [None, Some (1000, SilenceTimer n)],
        silenceTimerRef := Some (Suc (length (timers st)))\<rparr>"
    unfolding e2 onresult_final [OF n1 there] unfolding e1 onresult_final [OF assms(2) hi]
    using assms(2) by (simp add: cancelled_def list_update_append split: option.splits)
  have len: "length (cancelled st) = length (timers st)"
    by (simp add: cancelled_def split: option.splits)
  have fire: "step pf3 (Timeout (Suc (length (timers st)))) s2 =
      silenceCallback n pf3 (s2\<lparr>timers := cancelled st @ [None, None]\<rparr>)"
    by (simp add: step_handle [OF reachable_sync [OF r2]] fireTimer_def)
      (simp add: s2 len nth_append list_update_append)
  have "step pf3 (Timeout (Suc (length (timers st)))) s2 =
      (s2\<lparr>timers := cancelled st @ [None, None]\<rparr>)
        \<lparr>captures := (captures s2)[n := (captures s2 ! n)\<lparr>isProcessing := True\<rparr>],
         messages := messages s2 @ [userMessage (now pf3) ''hi there''],
         input := [],
         isLoading := True,
         tasks := tasks s2 @ [Some (AwaitFetch (Voice n) ''hi there'')]\<rparr>"
    unfolding fire using assms(2) idle
    by (subst silenceCallback_dispatch) (simp_all add: s2 trim_def isWhiteSpace_def)
  then have s3: "tasks (step pf3 (Timeout (Suc (length (timers st)))) s2) =
        tasks st @ [Some (AwaitFetch (Voice n) ''hi there'')]"
      "messages (step pf3 (Timeout (Suc (length (timers st)))) s2) =
        messages st @ [userMessage (now pf3) ''hi there'']"
    by (simp_all add: s2)
  have run: "run [(pf1, Result n (finalEvent ''hi'')), (pf2, Result n (finalEvent ''hi there''))] st = s2"
    by (simp add: s1_def s2_def)
  show "let s2 = run [(pf1, Result n (finalEvent ''hi'')),
                      (pf2, Result n (finalEvent ''hi there''))] st;
            s3 = step pf3 (Timeout (Suc (length (timers st)))) s2
        in timers s2 = cancelled st @ [None, Some (1000, SilenceTimer n)] \<and>
           tasks s2 = tasks st \<and> messages s2 = messages st \<and>
           tasks s3 = tasks st @ [Some (AwaitFetch (Voice n) ''hi there'')] \<and>
           messages s3 = messages st @ [userMessage (now pf3) ''hi there'']"
    unfolding run Let_def using s3 by (simp add: s2)
qed


theorem C6_latest_final_witness:
  "finalTranscript
     (captures
        (step (chromium 3)
           (Result 0 \<lparr>resultIndex = 1,
                      results = [\<lparr>isFinal = True, transcript = ''zero''\<rparr>,
                                 \<lparr>isFinal = True, transcript = ''hi''\<rparr>,
                                 \<lparr>isFinal = True, transcript = ''hi there''\<rparr>,
                                 \<lparr>isFinal = False, transcript = ''hi there you''\<rparr>]\<rparr>)
           listening) ! 0) = ''hi there'' \<and>
   tasks (step (chromium 5) (Timeout 2)
            (run [(chromium 3, Result 0 (finalEvent ''hi'')),
                  (chromium 4, Result 0 (finalEvent ''hi there''))] listening)) =
     [Some (AwaitFetch (Voice 0) ''hi there'')]"
proof -
  have n: "0 < length (captures listening)"
    and idle: "\<not> isProcessing (captures listening ! 0)"
    and t: "Suc (length (timers listening)) = 2"
    by (simp_all add: listening_eq)
  from C6_latest_final_wins
    [where st = listening and n = 0 and pf = "chromium 3" and ?pf1.0 = "chromium 3"
       and ?pf2.0 = "chromium 4" and ?pf3.0 = "chromium 5"
       and ev = "\<lparr>resultIndex = 1,
                      results = [\<lparr>isFinal = True, transcript = ''zero''\<rparr>,
                                 \<lparr>isFinal = True, transcript = ''hi''\<rparr>,
                                 \<lparr>isFinal = True, transcript = ''hi there''\<rparr>,
                                 \<lparr>isFinal = False, transcript = ''hi there you''\<rparr>]\<rparr>",
     OF reachable_listening n] idle
  show ?thesis
    unfolding t Let_def by (simp add: listening_eq [THEN arg_cong, of tasks])
qed

subsection \<open>Interim events\<close>

text \<open>
  C8, as stated, fails. Capture 0 has reported the final transcript ``hello'' and its
  debounce timer (timer 1) is pending (\<open>heardHello\<close>). An event with the single interim
  result ``hello world'' clears that timer, but the input shows the stored final text,
  not the interim one, and the event arms a debounce timer of its own (timer 2).
\<close>

theorem C8_interim_event_rearms:
  "timers heardHello = [None, Some (1000, SilenceTimer 0)] \<and>
   input (step (chromium 4) (Result 0 (interimEvent ''hello world'')) heardHello) = ''hello'' \<and>
   timers (step (chromium 4) (Result 0 (interimEvent ''hello world'')) heardHello) =
     [None, None, Some (1000, SilenceTimer 0)]"
  by (simp add: heardHello_def listening_eq model_defs finalEvent_def interimEvent_def
      trim_def isWhiteSpace_def)

text \<open>
  C8, amended. An event without a final result (from \<open>resultIndex\<close> on) clears the timer
  \<^verbatim>\<open>silenceTimerRef\<close> holds, after which no debounce timer armed earlier is pending, and
  leaves \<^verbatim>\<open>finalTranscript\<close> as it is. If the capture has no final transcript yet
  (\<^verbatim>\<open>finalTranscript\<close> is empty), the input is set to the interim text and no timer is
  armed. If it has one, the input is set to that final text instead, and a debounce timer
  is armed exactly when that text is not blank.
\<close>

theorem C8_interim_event:
  assumes "reachable st" and "n < length (captures st)"
    and "\<forall>r\<in>set (drop (resultIndex ev) (results ev)). \<not> isFinal r"
  shows "(let ft = finalTranscript (captures st ! n);
              s = step pf (Result n ev) st
          in captures s = captures st \<and>
             input s = (if ft \<noteq> [] then ft else interimText ev) \<and>
             timers s = (if trim ft \<noteq> [] then cancelled st @ [Some (1000, SilenceTimer n)]
                         else cancelled st) \<and>
             length (cancelled st) = length (timers st) \<and>
             (\<forall>t<length (timers st). silenceOf (cancelled st ! t) = None))"
proof -
  let ?ft = "finalTranscript (captures st ! n)"
  define batch where "batch = drop (resultIndex ev) (results ev)"
  from assms(3) have "\<forall>r\<in>set batch. \<not> isFinal r" by (simp add: batch_def)
  then have "scanResults batch (?ft, []) =
      (?ft, case batch of [] \<Rightarrow> [] | r # rs \<Rightarrow> transcript (last (r # rs)))"
    by (cases batch) (simp_all add: scanResults_interim del: scanResults.simps last.simps)
  then have scan: "scanResults (drop (resultIndex ev) (results ev)) (?ft, []) = (?ft, interimText ev)"
    by (simp only: batch_def interimText_def)
  from assms(1) have sync: "in_sync st" by (rule reachable_sync)
  have same: "(captures st)[n := (captures st ! n)\<lparr>finalTranscript := ?ft\<rparr>] = captures st"
    by (simp add: list_update_same_conv assms(2))
  have eq: "step pf (Result n ev) st = onresult n ev st"
    using assms(2) by (simp add: step_handle [OF sync])
  have c: "captures (onresult n ev st) = captures st"
    using assms(2) same by (simp add: onresult_captures scan)
  have i: "input (onresult n ev st) = (if ?ft \<noteq> [] then ?ft else interimText ev)"
    by (simp add: onresult_def Let_def scan setCapture_def setTimeout_def)
  have t: "timers (onresult n ev st) =
      (if trim ?ft \<noteq> [] then cancelled st @ [Some (1000, SilenceTimer n)] else cancelled st)"
    by (simp add: onresult_def Let_def scan setCapture_def setTimeout_def clearTimeout_def
        cancelled_def split: option.splits)
  have l: "length (cancelled st) = length (timers st)"
    by (simp add: cancelled_def split: option.splits)
  from assms(1) have ok: "debounce_ok st" by (rule reachable_debounce_ok)
  have q: "\<forall>t<length (timers st). silenceOf (cancelled st ! t) = None"
  proof (cases "silenceTimerRef st")
    case None
    with no_ref_quiet [OF ok None] show ?thesis by (simp add: cancelled_def)
  next
    case (Some r)
    with clear_ref_quiet [OF ok Some] show ?thesis by (simp add: cancelled_def)
  qed
  from c i t l q show ?thesis unfolding Let_def eq by simp
qed

theorem C8_interim_event_witness:
  "input (step (chromium 3) (Result 0 (interimEvent ''hel'')) listening) = ''hel'' \<and>
   timers (step (chromium 3) (Result 0 (interimEvent ''hel'')) listening) = [None] \<and>
   input (step (chromium 4) (Result 0 (interimEvent ''hello world'')) heardHello) = ''hello'' \<and>
   timers (step (chromium 4) (Result 0 (interimEvent ''hello world'')) heardHello) =
     [None, None, Some (1000, SilenceTimer 0)]"
proof -
  have r: "reachable heardHello"
    unfolding heardHello_def by (intro reachable_run reachable_listening)
  have h: "captures heardHello = [\<lparr>finalTranscript = ''hello'', isProcessing = False,
              captured = \<lparr>capturedIsAutoChat = True, capturedIsLoading = False\<rparr>\<rparr>]"
    "timers heardHello = [None, Some (1000, SilenceTimer 0)]"
    "silenceTimerRef heardHello = Some 1"
    by (simp_all add: heardHello_def listening_eq model_defs finalEvent_def trim_def
        isWhiteSpace_def)
  from C8_interim_event [OF reachable_listening, of 0 "interimEvent ''hel''" "chromium 3"]
    C8_interim_event [OF r, of 0 "interimEvent ''hello world''" "chromium 4"] h
  show ?thesis
    by (simp add: listening_eq interimEvent_def interimText_def cancelled_def trim_def
        isWhiteSpace_def Let_def)
qed

subsection \<open>The debounce timer fires\<close>

lemma fire_silence:
  assumes "reachable st" and "t < length (timers st)"
    and "timers st ! t = Some (d, SilenceTimer n)"
  shows "step pf (Timeout t) st = silenceCallback n pf (st\<lparr>timers := (timers st)[t := None]\<rparr>)"
    and "n < length (captures st)"
    and "trim (finalTranscript (captures st ! n)) \<noteq> []"
proof -
  from assms(1) have "in_sync st" by (rule reachable_sync)
  then have "step pf (Timeout t) st = handle pf (Timeout t) st"
    by (rule step_handle) simp
  with assms(2,3)
  show "step pf (Timeout t) st = silenceCallback n pf (st\<lparr>timers := (timers st)[t := None]\<rparr>)"
    by (simp add: fireTimer_def)
  from assms(1) have "debounce_ok st" by (rule reachable_debounce_ok)
  with assms(2,3)
  show "n < length (captures st)" and "trim (finalTranscript (captures st ! n)) \<noteq> []"
    by (simp_all add: debounce_ok_iff)
qed

text \<open>
  C2, as stated, fails. After the dispatch of ``hello'' (\<open>dispatched\<close>) the capture still
  holds the text, and still does when the reply has been spoken (\<open>answered\<close>). An interim
  event of the same capture then arms the debounce timer again (timer 2), and its fire
  dispatches ``hello'' a second time: a second request, a second user message.
\<close>

theorem C2_same_text_dispatched_twice:
  "tasks dispatched = [Some (AwaitFetch (Voice 0) ''hello'')] \<and>
   finalTranscript (captures dispatched ! 0) = ''hello'' \<and>
   tasks answered = [None] \<and>
   finalTranscript (captures answered ! 0) = ''hello'' \<and>
   tasks (run [(chromium 7, Result 0 (interimEvent ''and'')), (chromium 8, Timeout 2)] answered) =
     [None, Some (AwaitFetch (Voice 0) ''hello'')] \<and>
   map msg_text
     (messages (run [(chromium 7, Result 0 (interimEvent ''and'')), (chromium 8, Timeout 2)]
                  answered)) = [''hello'', ''hi'', ''hello'']"
  by (simp add: answered_def dispatched_def heardHello_def listening_eq model_defs
      finalEvent_def interimEvent_def textReply_def replyText_def truthy_def trim_def
      isWhiteSpace_def userMessage_def aiMessage_def)

text \<open>
  C2, amended. The fire of the debounce timer of a capture that is not processing sends
  the request and sets \<^verbatim>\<open>isProcessing\<close>; nothing else of the capture changes, so
  \<^verbatim>\<open>finalTranscript\<close> is not cleared. While the exchange is in flight the debounce callback
  of that capture does nothing. When the exchange has finished (\<open>finish\<close>, the end of
  both the success and the failure path) the text is still there, and the callback, run
  again, sends it again.
\<close>

theorem C2_dispatch_keeps_transcript:
  assumes "reachable st" and "t < length (timers st)"
    and "timers st ! t = Some (d, SilenceTimer n)" and "\<not> isProcessing (captures st ! n)"
  shows "(let ft = finalTranscript (captures st ! n);
              s = step pf (Timeout t) st;
              s' = finish (Voice n) (length (tasks st)) s
          in tasks s = tasks st @ [Some (AwaitFetch (Voice n) ft)] \<and>
             captures s = (captures st)[n := (captures st ! n)\<lparr>isProcessing := True\<rparr>] \<and>
             silenceCallback n pf' s = s \<and>
             captures s' = captures st \<and>
             tasks (silenceCallback n pf' s') = tasks s' @ [Some (AwaitFetch (Voice n) ft)])"
proof -
  let ?ft = "finalTranscript (captures st ! n)"
  let ?st = "st\<lparr>timers := (timers st)[t := None]\<rparr>"
  note f = fire_silence [OF assms(1-3)]
  have s: "step pf (Timeout t) st =
     ?st\<lparr>captures := (captures st)[n := (captures st ! n)\<lparr>isProcessing := True\<rparr>],
         messages := messages st @ [userMessage (now pf) ?ft],
         input := [],
         isLoading := True,
         tasks := tasks st @ [Some (AwaitFetch (Voice n) ?ft)]\<rparr>"
    unfolding f(1) using f(2,3) assms(4) by (subst silenceCallback_dispatch) simp_all
  have restored: "(captures st)[n := (captures st ! n)\<lparr>isProcessing := False\<rparr>] = captures st"
    using assms(4) f(2) by (simp add: list_update_same_conv)
  have a: "tasks (step pf (Timeout t) st) = tasks st @ [Some (AwaitFetch (Voice n) ?ft)]"
    and b: "captures (step pf (Timeout t) st) =
      (captures st)[n := (captures st ! n)\<lparr>isProcessing := True\<rparr>]"
    by (simp_all add: s)
  have c: "silenceCallback n pf' (step pf (Timeout t) st) = step pf (Timeout t) st"
    using f(2) by (simp add: silenceCallback_dropped b)
  have d: "captures (finish (Voice n) (length (tasks st)) (step pf (Timeout t) st)) = captures st"
    using f(2) restored by (simp add: finish_def afterAwait_def setCapture_captures b)
  have e: "tasks (silenceCallback n pf' (finish (Voice n) (length (tasks st)) (step pf (Timeout t) st))) =
      tasks (finish (Voice n) (length (tasks st)) (step pf (Timeout t) st)) @
        [Some (AwaitFetch (Voice n) ?ft)]"
    using f(2,3) assms(4) by (subst silenceCallback_dispatch) (simp_all add: d)
  from a b c d e show ?thesis by (simp add: Let_def)
qed

theorem C2_dispatch_keeps_transcript_witness:
  "tasks (step (chromium 4) (Timeout 1) heardHello) = [Some (AwaitFetch (Voice 0) ''hello'')] \<and>
   finalTranscript (captures (step (chromium 4) (Timeout 1) heardHello) ! 0) = ''hello'' \<and>
   isProcessing (captures (step (chromium 4) (Timeout 1) heardHello) ! 0)"
proof -
  have r: "reachable heardHello"
    unfolding heardHello_def by (intro reachable_run reachable_listening)
  have h: "captures heardHello = [\<lparr>finalTranscript = ''hello'', isProcessing = False,
              captured = \<lparr>capturedIsAutoChat = True, capturedIsLoading = False\<rparr>\<rparr>]"
    "timers heardHello = [None, Some (1000, SilenceTimer 0)]"
    "tasks heardHello = []"
    by (simp_all add: heardHello_def listening_eq model_defs finalEvent_def trim_def
        isWhiteSpace_def)
  from h have "1 < length (timers heardHello)"
    and "timers heardHello ! 1 = Some (1000, SilenceTimer 0)"
    and "\<not> isProcessing (captures heardHello ! 0)"
    by simp_all
  from C2_dispatch_keeps_transcript [OF r this, of "chromium 4" "chromium 4"] h
  show ?thesis by (simp add: Let_def)
qed

text \<open>
  C5, as stated, fails. The request for ``hello'', sent by capture 0, is out; capture 1
  has been opened by the restart timer and its debounce timer (timer 3) is pending
  (\<open>secondCapture\<close>). When that timer fires the fire is not dropped: a second request is
  sent while the first is in flight.
\<close>

theorem C5_two_dispatches_in_flight:
  "tasks secondCapture = [Some (AwaitFetch (Voice 0) ''hello'')] \<and>
   timers secondCapture ! 3 = Some (1000, SilenceTimer 1) \<and>
   tasks (step (chromium 8) (Timeout 3) secondCapture) =
     [Some (AwaitFetch (Voice 0) ''hello''), Some (AwaitFetch (Voice 1) ''hi'')]"
  by (simp add: secondCapture_def dispatched_def heardHello_def listening_eq model_defs
      finalEvent_def trim_def isWhiteSpace_def)

text \<open>
  C5, amended. In every reachable state, a pending debounce timer belongs to a capture
  whose \<^verbatim>\<open>finalTranscript\<close> is not blank. When it fires and no exchange started by that
  capture is in flight, exactly one request with that text is sent, one user message is
  appended and \<^verbatim>\<open>isProcessing\<close> is set; when an exchange started by that capture is in
  flight, the fire only uses up the timer. So in every reachable state each capture awaits
  at most one exchange; exchanges started by different captures are not counted against
  each other.
\<close>

theorem C5_fire_dispatches_once_per_capture:
  assumes "reachable st" and "t < length (timers st)"
    and "timers st ! t = Some (d, SilenceTimer n)"
  shows "trim (finalTranscript (captures st ! n)) \<noteq> [] \<and>
         (inFlight n st = 0 \<longrightarrow>
            step pf (Timeout t) st =
              st\<lparr>timers := (timers st)[t := None],
                 captures := (captures st)[n := (captures st ! n)\<lparr>isProcessing := True\<rparr>],
                 messages := messages st @ [userMessage (now pf) (finalTranscript (captures st ! n))],
                 input := [],
                 isLoading := True,
                 tasks := tasks st @
                   [Some (AwaitFetch (Voice n) (finalTranscript (captures st ! n)))]\<rparr>) \<and>
         (inFlight n st \<noteq> 0 \<longrightarrow>
            step pf (Timeout t) st = st\<lparr>timers := (timers st)[t := None]\<rparr>) \<and>
         (\<forall>s m. reachable s \<longrightarrow> inFlight m s \<le> 1)"
proof (intro conjI impI allI)
  note f = fire_silence [OF assms]
  from reachable_flight [OF assms(1), of n] f(2)
  have busy: "isProcessing (captures st ! n) \<longleftrightarrow> inFlight n st \<noteq> 0" by simp
  show "trim (finalTranscript (captures st ! n)) \<noteq> []" by (rule f(3))
  show "step pf (Timeout t) st =
      st\<lparr>timers := (timers st)[t := None],
         captures := (captures st)[n := (captures st ! n)\<lparr>isProcessing := True\<rparr>],
         messages := messages st @ [userMessage (now pf) (finalTranscript (captures st ! n))],
         input := [],
         isLoading := True,
         tasks := tasks st @ [Some (AwaitFetch (Voice n) (finalTranscript (captures st ! n)))]\<rparr>"
    if "inFlight n st = 0"
    unfolding f(1) using f(2,3) that busy by (subst silenceCallback_dispatch) simp_all
  show "step pf (Timeout t) st = st\<lparr>timers := (timers st)[t := None]\<rparr>"
    if "inFlight n st \<noteq> 0"
    unfolding f(1) using that busy by (simp add: silenceCallback_dropped)
next
  fix s :: chat and m
  assume "reachable s"
  then show "inFlight m s \<le> 1" by (rule reachable_inFlight)
qed

theorem C5_fire_witness:
  "tasks (step (chromium 4) (Timeout 1) heardHello) = [Some (AwaitFetch (Voice 0) ''hello'')] \<and>
   inFlight 0 (step (chromium 4) (Timeout 1) heardHello) \<le> 1 \<and>
   inFlight 1 (step (chromium 8) (Timeout 3) secondCapture) \<le> 1"
proof -
  have r: "reachable heardHello"
    unfolding heardHello_def by (intro reachable_run reachable_listening)
  have h: "captures heardHello = [\<lparr>finalTranscript = ''hello'', isProcessing = False,
              captured = \<lparr>capturedIsAutoChat = True, capturedIsLoading = False\<rparr>\<rparr>]"
    "timers heardHello = [None, Some (1000, SilenceTimer 0)]"
    "tasks heardHello = []"
    by (simp_all add: heardHello_def listening_eq model_defs finalEvent_def trim_def
        isWhiteSpace_def)
  from h have t: "1 < length (timers heardHello)"
    "timers heardHello ! 1 = Some (1000, SilenceTimer 0)"
    and idle: "inFlight 0 heardHello = 0"
    by (simp_all add: inFlight_def)
  have r1: "reachable (step (chromium 4) (Timeout 1) heardHello)"
    using r by (rule reachable_step)
  have r2: "reachable (step (chromium 8) (Timeout 3) secondCapture)"
    unfolding secondCapture_def dispatched_def heardHello_def
    by (intro reachable_step reachable_run reachable_listening)
  from C5_fire_dispatches_once_per_capture [OF r t, of "chromium 4"] idle h r1 r2
  show ?thesis by simp
qed

end
